theory Spec2Isabelle
  imports Main
begin

section \<open>Errors and Python list indexing\<close>

text \<open>
  Every failure of the source is a value. The four assertion failures that the
  design names are kept apart (\<open>assert core.is_G_core(r, b)\<close> is \<open>NotACore\<close>,
  \<open>assert len(charges) == r\<close> and \<open>assert len(quotient) == r\<close> are \<open>ShapeMismatch\<close>,
  \<open>assert sum(charges) == 0\<close> is \<open>ChargeImbalance\<close>, \<open>assert gcd(r,b) == 1\<close> is
  \<open>InvalidAction\<close>); the remaining internal assertions are \<open>AssertionError\<close>.
  \<open>ZeroDivisionError\<close>, \<open>IndexError\<close> and \<open>ValueError\<close> are the exceptions Python
  raises on \<open>x % 0\<close>, on an index outside a list and on \<open>max\<close> of an empty sequence.
\<close>

datatype error =
    ZeroDivisionError
  | IndexError
  | ValueError
  | AssertionError
  | NotACore
  | ShapeMismatch
  | ChargeImbalance
  | InvalidAction

text \<open>Python's \<open>xs[i]\<close>: a negative index counts from the end; outside the list it raises.\<close>

definition py_index :: "'a list \<Rightarrow> int \<Rightarrow> nat option" where
  "py_index xs i =
     (let n = int (length xs)
      in if 0 \<le> i \<and> i < n then Some (nat i)
         else if - n \<le> i \<and> i < 0 then Some (nat (n + i))
         else None)"

section \<open>The partition value type and its boundary-path codec\<close>

text \<open>
  A partition is the list of its parts: positive integers, weakly decreasing.
\<close>

definition is_partition :: "int list \<Rightarrow> bool" where
  "is_partition p \<longleftrightarrow> sorted_wrt (\<lambda>x y. y \<le> x) p \<and> list_all (\<lambda>x. 0 < x) p"

text \<open>
  Modelled from the spec: the boundary-path codec, the conjugate and the Dyck-word
  encoding of the partition value type. \<open>PartitionExt\<close> inherits them from the
  external class \<open>Partition\<close> (\<open>zero_one_sequence\<close>, the constructor
  \<open>Partition(zero_one=...)\<close>, \<open>get_part\<close>, \<open>conjugate\<close>, \<open>upper_hook_lengths\<close>,
  \<open>to_dyck_word\<close>), which is not under src/. They are written here after that
  class: in its own convention symbol 1 is an east step and 0 a north step, the
  finite sequence starts at the first east step and ends at the last north step,
  and a partition read from a sequence loses its trailing zero parts.
\<close>

definition get_part :: "int list \<Rightarrow> nat \<Rightarrow> int" where
  "get_part p i = (if i < length p then p ! i else 0)"

definition zero_one_sequence :: "int list \<Rightarrow> int list" where
  "zero_one_sequence p =
     (let tmp = map (\<lambda>(i, si). si - int i) (enumerate 0 p)
      in map (\<lambda>i. if i \<in> set tmp then 0 else 1) [1 - int (length p) .. get_part p 0])"

definition strip_zeros :: "int list \<Rightarrow> int list" where
  "strip_zeros mu = rev (dropWhile (\<lambda>x. x = 0) (rev mu))"

definition from_zero_one :: "int list \<Rightarrow> int list" where
  "from_zero_one seq =
     (let tmp = map int (filter (\<lambda>i. seq ! i = 0) [0 ..< length seq])
      in strip_zeros (map (\<lambda>i. tmp ! i - int i) (rev [0 ..< length tmp])))"

section \<open>The abacus builder\<close>

text \<open>\<open>invert_zero_one\<close>: swap the two symbols of a binary sequence.\<close>

definition invert_zero_one :: "int list \<Rightarrow> int list" where
  "invert_zero_one sequence = map (\<lambda>code. 1 - code) sequence"

text \<open>
  \<open>G_abacus\<close> (method \<open>'fast'\<close>, the default and the only one its callers use).
  The starting wire and the update of the wire index are the two expressions of the
  source, named so that they can be compared with those of \<open>from_G_abacus\<close>.
\<close>

definition G_abacus_start :: "int list \<Rightarrow> int \<Rightarrow> int" where
  "G_abacus_start seq r = sum_list seq mod r"

definition G_abacus_next :: "int \<Rightarrow> int \<Rightarrow> int \<Rightarrow> int \<Rightarrow> int" where
  "G_abacus_next r b wire_num code = (wire_num + b * (1 - code) - code) mod r"

fun G_abacus_loop :: "int \<Rightarrow> int \<Rightarrow> int list list \<Rightarrow> int \<Rightarrow> int list \<Rightarrow> error + int list list" where
  "G_abacus_loop r b abacus wire_num [] = Inr abacus"
| "G_abacus_loop r b abacus wire_num (code # seq) =
     (case py_index abacus wire_num of
        None \<Rightarrow> Inl IndexError
      | Some k \<Rightarrow>
          G_abacus_loop r b (abacus[k := abacus ! k @ [code]])
            (G_abacus_next r b wire_num code) seq)"

definition G_abacus :: "int list \<Rightarrow> int \<Rightarrow> int \<Rightarrow> error + int list list" where
  "G_abacus p r b =
     (let seq = invert_zero_one (zero_one_sequence p);
          abacus = replicate (nat r) []
      in if r = 0 then Inl ZeroDivisionError
         else G_abacus_loop r b abacus (G_abacus_start seq r) seq)"

section \<open>The charge calculator\<close>

definition total_north_steps :: "int list list \<Rightarrow> int" where
  "total_north_steps abacus = sum_list (map sum_list abacus)"

definition expected :: "int \<Rightarrow> int \<Rightarrow> int list" where
  "expected north r =
     map (\<lambda>i. (north div r) + (if 0 < i \<and> i \<le> north mod r then 1 else 0)) [0 .. r - 1]"

definition G_charges :: "int list \<Rightarrow> int \<Rightarrow> int \<Rightarrow> error + int list" where
  "G_charges p r b =
     (case G_abacus p r b of
        Inl e \<Rightarrow> Inl e
      | Inr abacus \<Rightarrow>
          (let north = total_north_steps abacus;
               ex = expected north r
           in if sum_list ex \<noteq> north then Inl AssertionError
              else
                (let charges = map (\<lambda>(i, wire). ex ! i - sum_list wire) (enumerate 0 abacus)
                 in if sum_list charges \<noteq> 0 then Inl AssertionError else Inr charges)))"

section \<open>The core test\<close>

text \<open>
  Modelled from the spec: \<open>conjugate\<close>, \<open>upper_hook_lengths\<close> and \<open>to_dyck_word\<close> of
  the external class \<open>Partition\<close>, not under src/ (see above). The entry of
  \<open>upper_hook_lengths p alpha\<close> at the cell \<open>(i, j)\<close> is
  \<open>conj[j] - (i+1) + alpha * (p[i] - j)\<close>.
\<close>

definition conjugate :: "int list \<Rightarrow> int list" where
  "conjugate p =
     (if p = [] then []
      else replicate (nat (last p)) (int (length p)) @
           concat (map (\<lambda>i. replicate (nat (p ! (i - 1) - p ! i)) (int i)) (rev [1 ..< length p])))"

definition upper_hook_lengths :: "int list \<Rightarrow> int \<Rightarrow> int list list" where
  "upper_hook_lengths p alpha =
     (let conj = conjugate p
      in map (\<lambda>i. map (\<lambda>j. conj ! j - (int i + 1) + alpha * (p ! i - int j)) [0 ..< nat (p ! i)])
           [0 ..< length p])"

text \<open>
  \<open>is_G_core\<close>: no entry of \<open>upper_hook_lengths(-b)\<close> is divisible by \<open>r\<close>. With
  \<open>r = 0\<close> the first entry that is examined raises.
\<close>

definition is_G_core :: "int list \<Rightarrow> int \<Rightarrow> int \<Rightarrow> error + bool" where
  "is_G_core p r b =
     (let rows = upper_hook_lengths p (- b)
      in if r = 0 \<and> concat rows \<noteq> [] then Inl ZeroDivisionError
         else Inr (\<not> list_ex (\<lambda>row. list_ex (\<lambda>cell. cell mod r = 0) row) rows))"

section \<open>Dyck words of a partition\<close>

function to_dyck_word_loop :: "int list \<Rightarrow> int list \<Rightarrow> int list" where
  "to_dyck_word_loop copy_part list_of_word =
     (if copy_part = [] then list_of_word
      else
        (let c = last copy_part
         in to_dyck_word_loop (map (\<lambda>x. x - c) (butlast copy_part))
              (list_of_word @ replicate (nat c) 0 @ [1])))"
  by pat_completeness auto
termination
  by (relation "measure (\<lambda>(copy_part, list_of_word). length copy_part)") auto

declare to_dyck_word_loop.simps [simp del]

definition py_max :: "int list \<Rightarrow> error + int" where
  "py_max xs = (case xs of [] \<Rightarrow> Inl ValueError | x # ys \<Rightarrow> Inr (fold max ys x))"

definition to_dyck_word :: "int list \<Rightarrow> int option \<Rightarrow> int list" where
  "to_dyck_word mu n_opt =
     (if mu = [] then
        (case n_opt of None \<Rightarrow> [] | Some n \<Rightarrow> replicate (nat n) 1 @ replicate (nat n) 0)
      else
        (let n = (case n_opt of
                    None \<Rightarrow> fold max (map (\<lambda>(i, l). int i + l + 1) (enumerate 0 mu)) (hd mu + 1)
                  | Some n \<Rightarrow> n)
         in to_dyck_word_loop mu (replicate (nat (n - int (length mu))) 1) @
            replicate (nat (n - hd mu)) 0))"

section \<open>The reconstructor\<close>

text \<open>
  \<open>from_G_abacus\<close>. The merge loop may run forever, so it is a partial function:
  \<open>None\<close> is not returning, \<open>Some (Inl e)\<close> an exception, \<open>Some (Inr v)\<close> a value.
\<close>

definition from_G_abacus_start :: "int list list \<Rightarrow> int \<Rightarrow> int" where
  "from_G_abacus_start abacus r = total_north_steps abacus mod r"

definition from_G_abacus_next :: "int \<Rightarrow> int \<Rightarrow> int \<Rightarrow> int \<Rightarrow> int" where
  "from_G_abacus_next r b wire_num code = (wire_num + b * (1 - code) - code) mod r"

partial_function (option) from_G_abacus_loop ::
  "int \<Rightarrow> int \<Rightarrow> int \<Rightarrow> int list list \<Rightarrow> int \<Rightarrow> int \<Rightarrow> int list \<Rightarrow> (error + int list) option" where
  "from_G_abacus_loop r b north abacus wire_num north_steps_read path_seq =
     (if north_steps_read < north then
        (case py_index abacus wire_num of
           None \<Rightarrow> Some (Inl IndexError)
         | Some k \<Rightarrow>
             (case abacus ! k of
                [] \<Rightarrow>
                  from_G_abacus_loop r b north abacus (from_G_abacus_next r b wire_num 0)
                    (north_steps_read + 0) (path_seq @ [0])
              | code # wire \<Rightarrow>
                  from_G_abacus_loop r b north (abacus[k := wire])
                    (from_G_abacus_next r b wire_num code)
                    (north_steps_read + code) (path_seq @ [code])))
      else Some (Inr path_seq))"

declare from_G_abacus_loop.simps [code]

definition from_G_abacus :: "int list list \<Rightarrow> int option \<Rightarrow> int \<Rightarrow> (error + int list) option" where
  "from_G_abacus abacus r_opt b =
     (let r = (case r_opt of None \<Rightarrow> int (length abacus) | Some r \<Rightarrow> r)
      in if gcd r b \<noteq> 1 then Some (Inl InvalidAction)
         else if r = 0 then Some (Inl ZeroDivisionError)
         else
           (case from_G_abacus_loop r b (total_north_steps abacus) abacus
                   (from_G_abacus_start abacus r) 0 [] of
              None \<Rightarrow> None
            | Some (Inl e) \<Rightarrow> Some (Inl e)
            | Some (Inr path_seq) \<Rightarrow> Some (Inr (from_zero_one (invert_zero_one path_seq)))))"

text \<open>
  \<open>from_G_charges_and_quotient\<close>. \<open>charged_abacus\<close> is the abacus as it stands at the
  output checks, together with \<open>n\<close> and \<open>c_max\<close>: the Dyck words of the quotient (or
  \<open>r\<close> empty wires), then \<open>c_max - charges[i]\<close> symbols 1 put in front of wire \<open>i\<close>.
\<close>

definition charged_abacus ::
  "int list \<Rightarrow> int list list option \<Rightarrow> int \<Rightarrow> error + (int \<times> int \<times> int list list)" where
  "charged_abacus charges quot r =
     (case (case quot of
              None \<Rightarrow> Inr (0, replicate (nat r) [])
            | Some q \<Rightarrow>
                if int (length q) \<noteq> r then Inl ShapeMismatch
                else
                  (case py_max (map (\<lambda>mu. int (length (to_dyck_word mu None))) q) of
                     Inl e \<Rightarrow> Inl e
                   | Inr m \<Rightarrow> Inr (m div 2, map (\<lambda>mu. to_dyck_word mu (Some (m div 2))) q))) of
        Inl e \<Rightarrow> Inl e
      | Inr (n, abacus) \<Rightarrow>
          (case py_max charges of
             Inl e \<Rightarrow> Inl e
           | Inr c_max \<Rightarrow>
               Inr (n, c_max,
                    map (\<lambda>i. replicate (nat (c_max - charges ! i)) 1 @ abacus ! i) [0 ..< nat r])))"

definition from_G_charges_and_quotient ::
  "int list \<Rightarrow> int list list option \<Rightarrow> int \<Rightarrow> int \<Rightarrow> (error + int list) option" where
  "from_G_charges_and_quotient charges quot r b =
     (if int (length charges) \<noteq> r then Some (Inl ShapeMismatch)
      else if sum_list charges \<noteq> 0 then Some (Inl ChargeImbalance)
      else
        (case charged_abacus charges quot r of
           Inl e \<Rightarrow> Some (Inl e)
         | Inr (n, c_max, abacus) \<Rightarrow>
             if int (sum_list (map length abacus)) \<noteq> r * (2 * n + c_max) then Some (Inl AssertionError)
             else if total_north_steps abacus \<noteq> r * (n + c_max) then Some (Inl AssertionError)
             else from_G_abacus abacus (Some r) b))"

section \<open>Core and quotient\<close>


text \<open>
  Modelled from the spec: the constructor \<open>PartitionTuple\<close> of the external library,
  not under src/; the quotient is the tuple of the partitions it is given, one for
  each wire.
\<close>

definition G_quotient :: "int list \<Rightarrow> int \<Rightarrow> int \<Rightarrow> bool \<Rightarrow> error + int list list" where
  "G_quotient p r b label_swap_xy =
     (case G_abacus p r b of
        Inl e \<Rightarrow> Inl e
      | Inr abacus \<Rightarrow>
          (let p_list = map (\<lambda>wire. from_zero_one (invert_zero_one wire)) abacus
           in if label_swap_xy then
                (case p_list of [] \<Rightarrow> Inl IndexError | q # qs \<Rightarrow> Inr (q # rev qs))
              else Inr p_list))"

definition from_G_core_and_quotient ::
  "int list \<Rightarrow> int list list option \<Rightarrow> int \<Rightarrow> int \<Rightarrow> (error + int list) option" where
  "from_G_core_and_quotient core quot r b =
     (case is_G_core core r b of
        Inl e \<Rightarrow> Some (Inl e)
      | Inr ok \<Rightarrow>
          if \<not> ok then Some (Inl NotACore)
          else
            (case quot of
               None \<Rightarrow> Some (Inr core)
             | Some q \<Rightarrow>
                 (case G_charges core r b of
                    Inl e \<Rightarrow> Some (Inl e)
                  | Inr charges \<Rightarrow> from_G_charges_and_quotient charges (Some q) r b)))"

section \<open>The design's words, and auxiliary definitions\<close>

text \<open>
  The stepping rule as the design states it: after an east step (symbol 0) the wire
  index advances by \<open>b\<close>, after a north step (symbol 1) it goes back by one, modulo
  \<open>r\<close>. \<open>ones\<close> counts the symbols 1 of a sequence; \<open>binary\<close> says that a sequence
  has no other symbol than 0 and 1. \<open>distribute\<close> is the loop of \<open>G_abacus\<close> where no
  index can be out of range.
\<close>

definition stepping_rule :: "int \<Rightarrow> int \<Rightarrow> int \<Rightarrow> int \<Rightarrow> int" where
  "stepping_rule r b wire symbol = (if symbol = 0 then (wire + b) mod r else (wire - 1) mod r)"

definition ones :: "int list \<Rightarrow> int" where
  "ones seq = int (count_list seq 1)"

definition binary :: "int list \<Rightarrow> bool" where
  "binary seq \<longleftrightarrow> list_all (\<lambda>code. code = 0 \<or> code = 1) seq"

fun distribute :: "int \<Rightarrow> int \<Rightarrow> int list list \<Rightarrow> int \<Rightarrow> int list \<Rightarrow> int list list" where
  "distribute r b abacus w [] = abacus"
| "distribute r b abacus w (code # seq) =
     distribute r b (abacus[nat w := abacus ! nat w @ [code]]) ((w + b * (1 - code) - code) mod r) seq"

text \<open>
  The reference distribution of the charges as the design states it, and the arm
  and the leg of a cell.
\<close>

definition spec_expected :: "int \<Rightarrow> int \<Rightarrow> nat \<Rightarrow> int" where
  "spec_expected total_ones r i =
     (if i = 0 then total_ones div r
      else if int i \<le> total_ones mod r then total_ones div r + 1
      else total_ones div r)"

definition arm :: "int list \<Rightarrow> nat \<Rightarrow> nat \<Rightarrow> int" where
  "arm p i j = p ! i - int j - 1"

definition leg :: "int list \<Rightarrow> nat \<Rightarrow> nat \<Rightarrow> int" where
  "leg p i j = conjugate p ! j - int i - 1"

text \<open>
  Auxiliary notions for the codec: \<open>diag p\<close> lists the values \<open>p[i] - i\<close> that
  \<open>zero_one_sequence\<close> collects, \<open>zero_positions\<close> and \<open>parts_of\<close> are the list \<open>tmp\<close> and
  the result of \<open>from_zero_one\<close> before its trailing zeros are removed.
\<close>

definition diag :: "int list \<Rightarrow> int list" where
  "diag p = map (\<lambda>(i, si). si - int i) (enumerate 0 p)"

definition zero_positions :: "int list \<Rightarrow> nat list" where
  "zero_positions seq = filter (\<lambda>i. seq ! i = 0) [0 ..< length seq]"

definition parts_of :: "int list \<Rightarrow> int list" where
  "parts_of seq =
     (let tmp = map int (zero_positions seq)
      in map (\<lambda>i. tmp ! i - int i) (rev [0 ..< length tmp]))"

text \<open>A list of non-negative integers in weakly decreasing order.\<close>

definition descending :: "int list \<Rightarrow> bool" where
  "descending cp \<longleftrightarrow> sorted_wrt (\<lambda>x y. y \<le> x) cp \<and> list_all (\<lambda>x. 0 \<le> x) cp"

text \<open>
  The wires seen as functions of the path: \<open>wire_of r b w seq k\<close> lists the symbols of
  \<open>seq\<close> that the stepping walk started at wire \<open>w\<close> puts on wire \<open>k\<close>, and
  \<open>walk r b w seq\<close> is the wire reached after \<open>seq\<close>.
\<close>

fun wire_of :: "int \<Rightarrow> int \<Rightarrow> int \<Rightarrow> int list \<Rightarrow> int \<Rightarrow> int list" where
  "wire_of r b w [] k = []"
| "wire_of r b w (code # seq) k =
     (if w = k then [code] else []) @ wire_of r b ((w + b * (1 - code) - code) mod r) seq k"

fun walk :: "int \<Rightarrow> int \<Rightarrow> int \<Rightarrow> int list \<Rightarrow> int" where
  "walk r b w [] = w"
| "walk r b w (code # seq) = walk r b ((w + b * (1 - code) - code) mod r) seq"

text \<open>
  \<open>represents r b w A seq\<close>: the binary path \<open>seq\<close>, which is empty or ends with a
  symbol 1, puts on every wire what the abacus \<open>A\<close> holds there, up to zeros at the
  end of the wire, when the walk starts at wire \<open>w\<close>.
\<close>

definition represents :: "int \<Rightarrow> int \<Rightarrow> int \<Rightarrow> int list list \<Rightarrow> int list \<Rightarrow> bool" where
  "represents r b w A seq \<longleftrightarrow>
     binary seq \<and> (seq = [] \<or> last seq = 1) \<and>
     (\<forall>k. 0 \<le> k \<longrightarrow> k < r \<longrightarrow> strip_zeros (wire_of r b w seq k) = strip_zeros (A ! nat k))"

text \<open>
  \<open>path_of p\<close> is the boundary path of \<open>p\<close> in the convention of the abacus (1 north,
  0 east), built row by row: the rows below, then the east steps up to the length of
  the row, then its north step.
\<close>

fun path_of :: "int list \<Rightarrow> int list" where
  "path_of [] = []"
| "path_of (x # xs) = path_of xs @ replicate (nat (x - get_part xs 0)) 0 @ [1]"

text \<open>
  The wires as the design words them: the walk starts at a given wire, the symbol
  read is put on the current wire, and the wire index is then updated by
  \<open>stepping_rule\<close>. \<open>spec_wire r b wire seq k\<close> is what wire \<open>k\<close> receives from \<open>seq\<close>.
\<close>

fun spec_wire :: "int \<Rightarrow> int \<Rightarrow> int \<Rightarrow> int list \<Rightarrow> int \<Rightarrow> int list" where
  "spec_wire r b wire [] k = []"
| "spec_wire r b wire (symbol # seq) k =
     (if wire = k then [symbol] else []) @ spec_wire r b (stepping_rule r b wire symbol) seq k"

text \<open>
  \<open>zero_wires r b w seq\<close> lists the wires on which the symbols 0 of \<open>seq\<close> land, in
  order. \<open>conflict r b w seq\<close> says that some symbol 0 of \<open>seq\<close> is followed, later on
  the same wire, by a symbol 1.
\<close>

fun zero_wires :: "int \<Rightarrow> int \<Rightarrow> int \<Rightarrow> int list \<Rightarrow> int list" where
  "zero_wires r b w [] = []"
| "zero_wires r b w (code # seq) =
     (if code = 0 then [w] else []) @ zero_wires r b ((w + b * (1 - code) - code) mod r) seq"

fun conflict :: "int \<Rightarrow> int \<Rightarrow> int \<Rightarrow> int list \<Rightarrow> bool" where
  "conflict r b w [] = False"
| "conflict r b w (code # seq) =
     ((code = 0 \<and> 1 \<in> set (wire_of r b ((w + b * (1 - code) - code) mod r) seq w)) \<or>
      conflict r b ((w + b * (1 - code) - code) mod r) seq)"

text \<open>
  \<open>bad_cell p r b\<close>: some cell of \<open>p\<close> has \<open>leg - b * (arm + 1)\<close> divisible by \<open>r\<close>.
\<close>

definition bad_cell :: "int list \<Rightarrow> int \<Rightarrow> int \<Rightarrow> bool" where
  "bad_cell p r b \<longleftrightarrow>
     (\<exists>i j. i < length p \<and> int j < p ! i \<and> (leg p i j - b * (arm p i j + 1)) mod r = 0)"

text \<open>
  \<open>nice W\<close>: on the wire \<open>W\<close> no symbol 0 comes before a symbol 1.
\<close>

definition nice :: "int list \<Rightarrow> bool" where
  "nice W \<longleftrightarrow> list_all (\<lambda>c. c = 1) (strip_zeros W)"

section \<open>Properties of the abacus builder and of the charges\<close>

lemma py_index_in_range: "0 \<le> i \<Longrightarrow> i < int (length xs) \<Longrightarrow> py_index xs i = Some (nat i)"
  by (simp add: py_index_def)

lemma length_distribute [simp]: "length (distribute r b abacus w seq) = length abacus"
  by (induction seq arbitrary: abacus w) simp_all

lemma G_abacus_loop_distribute:
  "0 < r \<Longrightarrow> length abacus = nat r \<Longrightarrow> 0 \<le> w \<Longrightarrow> w < r \<Longrightarrow>
   G_abacus_loop r b abacus w seq = Inr (distribute r b abacus w seq)"
proof (induction seq arbitrary: abacus w)
  case Nil
  then show ?case by simp
next
  case (Cons code seq)
  have idx: "py_index abacus w = Some (nat w)"
    using Cons.prems by (simp add: py_index_in_range)
  have nxt: "0 \<le> (w + b * (1 - code) - code) mod r" "(w + b * (1 - code) - code) mod r < r"
    using Cons.prems(1) by simp_all
  show ?case
    using Cons.IH [OF Cons.prems(1) _ nxt] Cons.prems(2) idx
    by (simp add: G_abacus_next_def)
qed

lemma binary_ones: "binary seq \<Longrightarrow> sum_list seq = ones seq"
  by (induction seq) (auto simp: binary_def ones_def)

lemma total_north_steps_update:
  "k < length abacus \<Longrightarrow>
   total_north_steps (abacus[k := abacus ! k @ [code]]) = total_north_steps abacus + code"
proof (induction abacus arbitrary: k)
  case Nil
  then show ?case by simp
next
  case (Cons wire abacus)
  then show ?case by (cases k) (simp_all add: total_north_steps_def)
qed

lemma total_north_steps_distribute:
  "0 < r \<Longrightarrow> length abacus = nat r \<Longrightarrow> 0 \<le> w \<Longrightarrow> w < r \<Longrightarrow>
   total_north_steps (distribute r b abacus w seq) = total_north_steps abacus + sum_list seq"
proof (induction seq arbitrary: abacus w)
  case Nil
  then show ?case by simp
next
  case (Cons code seq)
  have nxt: "0 \<le> (w + b * (1 - code) - code) mod r" "(w + b * (1 - code) - code) mod r < r"
    using Cons.prems(1) by simp_all
  have k: "nat w < length abacus" using Cons.prems by simp
  show ?case
    using Cons.IH [OF Cons.prems(1) _ nxt, of "abacus[nat w := abacus ! nat w @ [code]]"]
      Cons.prems(2) total_north_steps_update [OF k, of code]
    by simp
qed

lemma sum_list_expected: "0 < r \<Longrightarrow> sum_list (expected north r) = north"
proof -
  assume r: "0 < r"
  let ?q = "north div r" and ?m = "north mod r"
  have m: "0 \<le> ?m" "?m < r" using r by simp_all
  have "sum_list (expected north r) = (\<Sum>i\<in>{0..r - 1}. ?q + (if 0 < i \<and> i \<le> ?m then 1 else 0))"
    unfolding expected_def by (simp add: sum_set_upto_conv_sum_list_int [symmetric])
  also have "\<dots> = (\<Sum>i\<in>{0..r - 1}. ?q) + (\<Sum>i\<in>{0..r - 1}. if 0 < i \<and> i \<le> ?m then 1 else 0)"
    by (simp add: sum.distrib)
  also have "(\<Sum>i\<in>{0..r - 1}. ?q) = r * ?q" using r by simp
  also have "(\<Sum>i\<in>{0..r - 1}. if 0 < i \<and> i \<le> ?m then 1 else (0::int)) = (\<Sum>i\<in>{1..?m}. 1)"
    using m by (intro sum.mono_neutral_cong_right) auto
  also have "\<dots> = ?m" using m by simp
  finally show ?thesis by simp
qed

lemma length_expected: "length (expected north r) = nat r"
  by (simp add: expected_def)

lemma charges_nth:
  "map (\<lambda>(i, wire). ex ! i - sum_list wire) (enumerate 0 abacus) =
   map (\<lambda>i. ex ! i - sum_list (abacus ! i)) [0 ..< length abacus]"
  by (rule nth_equalityI) (simp_all add: nth_enumerate_eq)

lemma sum_list_charges:
  assumes "length ex = length abacus"
  shows "sum_list (map (\<lambda>i. ex ! i - sum_list (abacus ! i)) [0 ..< length abacus]) =
         sum_list ex - total_north_steps abacus"
proof -
  have "sum_list (map (\<lambda>i. ex ! i - sum_list (abacus ! i)) [0 ..< length abacus]) =
        (\<Sum>i = 0 ..< length abacus. ex ! i) - (\<Sum>i = 0 ..< length abacus. sum_list (abacus ! i))"
    by (simp add: interv_sum_list_conv_sum_set_nat sum_subtractf)
  also have "(\<Sum>i = 0 ..< length abacus. ex ! i) = sum_list ex"
    using assms by (simp add: sum_list_sum_nth)
  also have "(\<Sum>i = 0 ..< length abacus. sum_list (abacus ! i)) = total_north_steps abacus"
    by (simp add: total_north_steps_def sum_list_sum_nth)
  finally show ?thesis .
qed

lemma binary_zero_one_sequence: "binary (zero_one_sequence p)"
  by (auto simp: binary_def zero_one_sequence_def list_all_iff Let_def)

lemma binary_invert_zero_one: "binary seq \<Longrightarrow> binary (invert_zero_one seq)"
  by (auto simp: binary_def invert_zero_one_def list_all_iff)

lemma binary_append: "binary (xs @ ys) \<longleftrightarrow> binary xs \<and> binary ys"
  by (simp add: binary_def)

lemma binary_distribute:
  "0 < r \<Longrightarrow> length abacus = nat r \<Longrightarrow> 0 \<le> w \<Longrightarrow> w < r \<Longrightarrow>
   list_all binary abacus \<Longrightarrow> binary seq \<Longrightarrow> list_all binary (distribute r b abacus w seq)"
proof (induction seq arbitrary: abacus w)
  case Nil
  then show ?case by simp
next
  case (Cons code seq)
  have nxt: "0 \<le> (w + b * (1 - code) - code) mod r" "(w + b * (1 - code) - code) mod r < r"
    using Cons.prems(1) by simp_all
  have k: "nat w < length abacus" using Cons.prems by simp
  have code: "binary [code]" and seq: "binary seq"
    using Cons.prems(6) by (simp_all add: binary_def)
  have "binary (abacus ! nat w)"
    using Cons.prems(5) k by (simp add: list_all_length)
  then have upd: "list_all binary (abacus[nat w := abacus ! nat w @ [code]])"
    using Cons.prems(5) code
    by (auto simp: list_all_iff binary_append dest!: subsetD [OF set_update_subset_insert])
  show ?case
    using Cons.IH [OF Cons.prems(1) _ nxt upd seq] Cons.prems(2) by simp
qed

lemma G_abacus_distribute:
  assumes "0 < r"
  shows "G_abacus p r b =
         Inr (distribute r b (replicate (nat r) [])
                (sum_list (invert_zero_one (zero_one_sequence p)) mod r)
                (invert_zero_one (zero_one_sequence p)))"
  using assms by (simp add: G_abacus_def Let_def G_abacus_start_def G_abacus_loop_distribute)

lemma G_abacus_facts:
  assumes "0 < r"
  shows "\<exists>abacus. G_abacus p r b = Inr abacus \<and> length abacus = nat r \<and> list_all binary abacus"
proof -
  let ?seq = "invert_zero_one (zero_one_sequence p)"
  have seq: "binary ?seq"
    by (intro binary_invert_zero_one binary_zero_one_sequence)
  have empty: "list_all binary (replicate (nat r) [])"
    by (simp add: list_all_iff binary_def)
  have "list_all binary (distribute r b (replicate (nat r) []) (sum_list ?seq mod r) ?seq)"
    using assms by (intro binary_distribute seq empty) simp_all
  then show ?thesis
    using assms by (simp add: G_abacus_distribute)
qed

lemma G_charges_value:
  assumes "0 < r" and "G_abacus p r b = Inr abacus" and "length abacus = nat r"
  shows "G_charges p r b =
         Inr (map (\<lambda>i. expected (total_north_steps abacus) r ! i - sum_list (abacus ! i)) [0 ..< nat r])"
    and "sum_list (map (\<lambda>i. expected (total_north_steps abacus) r ! i - sum_list (abacus ! i)) [0 ..< nat r]) = 0"
proof -
  let ?ex = "expected (total_north_steps abacus) r"
  have len: "length ?ex = length abacus" using assms(3) by (simp add: length_expected)
  show s: "sum_list (map (\<lambda>i. ?ex ! i - sum_list (abacus ! i)) [0 ..< nat r]) = 0"
    using sum_list_charges [OF len] sum_list_expected [OF assms(1)] assms(3) by simp
  show "G_charges p r b = Inr (map (\<lambda>i. ?ex ! i - sum_list (abacus ! i)) [0 ..< nat r])"
    using s assms by (simp add: G_charges_def Let_def charges_nth sum_list_expected)
qed

lemma expected_nth:
  "i < nat r \<Longrightarrow> expected north r ! i = spec_expected north r i"
  by (auto simp: expected_def spec_expected_def)

text \<open>
  Claim C4. For every partition and all parameters \<open>r \<ge> 1\<close> and \<open>b\<close>, \<open>G_charges\<close>
  returns charge coordinates (neither of its assertions fails) and they sum to zero.
\<close>
theorem G_charges_sum_zero:
  assumes "0 < r"
  shows "\<exists>charges. G_charges p r b = Inr charges \<and> sum_list charges = 0"
proof -
  obtain abacus where "G_abacus p r b = Inr abacus" "length abacus = nat r"
    using G_abacus_facts [OF assms] by blast
  then show ?thesis
    using G_charges_value [OF assms] by blast
qed

theorem G_charges_sum_zero_witness:
  "(0::int) < 3 \<and> G_charges [5, 4, 4, 1] 3 (- 1) = Inr [0, 1, - 1] \<and> sum_list [0, 1, - 1 :: int] = 0"
proof -
  have "G_charges [5, 4, 4, 1] 3 (- 1) = Inr [0, 1, - 1]" by code_simp
  then show ?thesis using G_charges_sum_zero [of 3 "[5, 4, 4, 1]" "- 1"] by simp
qed

text \<open>
  Claim C5. The charge of wire \<open>i\<close> is \<open>expected[i]\<close> minus the number of symbols 1
  on wire \<open>i\<close> of the abacus, where the reference distribution is the one of the
  design (\<open>spec_expected\<close>): \<open>floor(total_ones / r)\<close> for wire 0, and for the wires
  \<open>1 .. r-1\<close> one more than that exactly when \<open>i \<le> total_ones mod r\<close>.
\<close>
theorem G_charges_reference:
  assumes "0 < r"
  shows "\<exists>abacus. G_abacus p r b = Inr abacus \<and> length abacus = nat r \<and>
           G_charges p r b =
             Inr (map (\<lambda>i. spec_expected (sum_list (map ones abacus)) r i - ones (abacus ! i))
                    [0 ..< nat r])"
proof -
  obtain abacus where ab: "G_abacus p r b = Inr abacus" "length abacus = nat r" "list_all binary abacus"
    using G_abacus_facts [OF assms] by blast
  have t: "total_north_steps abacus = sum_list (map ones abacus)"
    using ab(3) by (simp add: total_north_steps_def list_all_iff binary_ones cong: map_cong)
  have "map (\<lambda>i. expected (total_north_steps abacus) r ! i - sum_list (abacus ! i)) [0 ..< nat r] =
        map (\<lambda>i. spec_expected (sum_list (map ones abacus)) r i - ones (abacus ! i)) [0 ..< nat r]"
    using ab(2,3) by (simp add: t expected_nth binary_ones list_all_length)
  then show ?thesis
    using G_charges_value(1) [OF assms ab(1,2)] ab(1,2) by simp
qed

theorem G_charges_reference_witness:
  "(0::int) < 3 \<and>
   (\<exists>abacus. G_abacus [5, 4, 4, 1] 3 (- 1) = Inr abacus \<and> length abacus = nat 3 \<and>
      G_charges [5, 4, 4, 1] 3 (- 1) =
        Inr (map (\<lambda>i. spec_expected (sum_list (map ones abacus)) 3 i - ones (abacus ! i))
               [0 ..< nat 3]))"
proof -
  have h: "(0::int) < 3" by simp
  show ?thesis using h G_charges_reference [OF h, of "[5, 4, 4, 1]" "- 1"] by (rule conjI)
qed

lemma list_ex_map_upt: "list_ex P (map f [0 ..< n]) \<longleftrightarrow> (\<exists>i<n. P (f i))"
  by (auto simp: list_ex_iff)

lemma hook_entry:
  "conjugate p ! j - (int i + 1) + (- b) * (p ! i - int j) = leg p i j - b * (arm p i j + 1)"
  by (simp add: leg_def arm_def algebra_simps)

lemma ex_cell:
  "(\<exists>i<n. \<exists>j<nat (f i). Q i j) \<longleftrightarrow> (\<exists>i j. i < n \<and> int j < f i \<and> Q i j)"
  by (auto simp: zless_nat_eq_int_zless)

text \<open>
  Claim C6. \<open>is_G_core(p, r, b)\<close> is true if and only if no cell \<open>(i, j)\<close> of \<open>p\<close>
  (row \<open>i\<close>, column \<open>j < p[i]\<close>) satisfies
  \<open>leg(i,j) - b * (arm(i,j) + 1) \<equiv> 0 (mod r)\<close>, with \<open>arm(i,j) = p[i] - j - 1\<close> and
  \<open>leg(i,j) = conjugate(p)[j] - i - 1\<close>.
\<close>
theorem is_G_core_iff_no_cell:
  assumes "r \<noteq> 0"
  shows "is_G_core p r b =
         Inr (\<not> (\<exists>i j. i < length p \<and> int j < p ! i \<and>
                     (leg p i j - b * (arm p i j + 1)) mod r = 0))"
proof -
  have "list_ex (\<lambda>row. list_ex (\<lambda>cell. cell mod r = 0) row) (upper_hook_lengths p (- b)) \<longleftrightarrow>
        (\<exists>i<length p. \<exists>j<nat (p ! i). (leg p i j - b * (arm p i j + 1)) mod r = 0)"
    by (simp only: upper_hook_lengths_def Let_def list_ex_map_upt hook_entry)
  also have "\<dots> \<longleftrightarrow>
        (\<exists>i j. i < length p \<and> int j < p ! i \<and> (leg p i j - b * (arm p i j + 1)) mod r = 0)"
    by (simp only: ex_cell)
  finally have "is_G_core p r b =
      (if r = 0 \<and> concat (upper_hook_lengths p (- b)) \<noteq> [] then Inl ZeroDivisionError
       else Inr (\<not> (\<exists>i j. i < length p \<and> int j < p ! i \<and>
                     (leg p i j - b * (arm p i j + 1)) mod r = 0)))"
    by (simp only: is_G_core_def Let_def)
  then show ?thesis
    using assms by simp
qed

theorem is_G_core_iff_no_cell_witness:
  "(2::int) \<noteq> 0 \<and>
   is_G_core [3, 1] 2 1 =
     Inr (\<not> (\<exists>i j. i < length [3, 1 :: int] \<and> int j < [3, 1] ! i \<and>
                 (leg [3, 1] i j - 1 * (arm [3, 1] i j + 1)) mod 2 = 0))"
proof -
  have h: "(2::int) \<noteq> 0" by simp
  show ?thesis using h is_G_core_iff_no_cell [OF h, of "[3, 1]" 1] by (rule conjI)
qed

text \<open>
  Claim C8. When the core argument is not an \<open>(r,b)\<close>-core, \<open>from_G_core_and_quotient\<close>
  signals \<open>NotACore\<close> and returns no value, whatever the quotient argument is.
\<close>
theorem not_a_core_rejected:
  assumes "is_G_core core r b = Inr False"
  shows "from_G_core_and_quotient core quot r b = Some (Inl NotACore)"
  using assms by (simp add: from_G_core_and_quotient_def)

theorem not_a_core_rejected_witness:
  "is_G_core [3, 1] 2 1 = Inr False \<and>
   from_G_core_and_quotient [3, 1] (Some [[], [1]]) 2 1 = Some (Inl NotACore)"
proof -
  have h: "is_G_core [3, 1] 2 1 = Inr False" by code_simp
  show ?thesis using h not_a_core_rejected [OF h, of "Some [[], [1]]"] by simp
qed

section \<open>The boundary-path codec and the abacus round trip\<close>

lemma enumerate_shift:
  "map (\<lambda>q. snd q - int (fst q)) (enumerate (Suc n) xs) =
   map (\<lambda>q. snd q - int (fst q) - 1) (enumerate n xs)"
  by (induction xs arbitrary: n) simp_all

lemma diag_Nil: "diag [] = []"
  by (simp add: diag_def)

lemma diag_Cons: "diag (x # xs) = x # map (\<lambda>v. v - 1) (diag xs)"
  by (simp add: diag_def case_prod_unfold enumerate_shift comp_def)

lemma is_partition_Cons:
  "is_partition (x # xs) \<longleftrightarrow> 0 < x \<and> get_part xs 0 \<le> x \<and> is_partition xs"
  by (cases xs) (auto simp: is_partition_def get_part_def)

lemma get_part_nonneg: "is_partition xs \<Longrightarrow> 0 \<le> get_part xs 0"
  by (cases xs) (auto simp: is_partition_def get_part_def)

lemma diag_le: "is_partition xs \<Longrightarrow> v \<in> set (diag xs) \<Longrightarrow> v \<le> get_part xs 0"
proof (induction xs arbitrary: v)
  case Nil
  then show ?case by (simp add: diag_Nil)
next
  case (Cons x xs)
  from Cons.prems(1) have x: "get_part xs 0 \<le> x" and xs: "is_partition xs"
    by (simp_all add: is_partition_Cons)
  from Cons.prems(2) consider "v = x" | u where "u \<in> set (diag xs)" "v = u - 1"
    by (auto simp: diag_Cons)
  then show ?case
  proof cases
    case 1
    then show ?thesis by (simp add: get_part_def)
  next
    case 2
    with Cons.IH [OF xs, of u] x show ?thesis by (simp add: get_part_def)
  qed
qed

lemma upto_shift: "map (\<lambda>i. g (i + 1)) [m .. n] = map g [m + 1 .. n + 1]"
  by (rule nth_equalityI) (simp_all add: algebra_simps)

lemma zero_one_sequence_diag:
  "zero_one_sequence p =
   map (\<lambda>i. if i \<in> set (diag p) then 0 else 1) [1 - int (length p) .. get_part p 0]"
  by (simp add: zero_one_sequence_def diag_def)

lemma zero_one_sequence_Nil: "zero_one_sequence [] = []"
  by (simp add: zero_one_sequence_diag get_part_def)

lemma zero_one_sequence_Cons:
  assumes "is_partition (x # xs)"
  shows "zero_one_sequence (x # xs) =
         zero_one_sequence xs @ replicate (nat (x - get_part xs 0)) 1 @ [0]"
proof -
  let ?a = "get_part xs 0" and ?l = "int (length xs)"
  let ?f = "\<lambda>i. if i \<in> set (diag (x # xs)) then 0 else (1::int)"
  from assms have x: "?a \<le> x" and xs: "is_partition xs" and pos: "0 < x"
    by (simp_all add: is_partition_Cons)
  have a: "0 \<le> ?a" using xs by (rule get_part_nonneg)
  have split: "[- ?l .. x] = [- ?l .. ?a - 1] @ [?a .. x - 1] @ [x]"
  proof -
    have "[- ?l .. x] = [- ?l .. x - 1] @ [x]"
      using pos by (simp add: upto_rec2)
    also have "[- ?l .. x - 1] = [- ?l .. ?a - 1] @ [?a .. x - 1]"
    proof (cases "?a = x")
      case True
      then show ?thesis by simp
    next
      case False
      with a x show ?thesis by (intro upto_split1) simp_all
    qed
    finally show ?thesis by simp
  qed
  have low: "map ?f [- ?l .. ?a - 1] = zero_one_sequence xs"
  proof -
    have "map ?f [- ?l .. ?a - 1] =
          map (\<lambda>i. if i + 1 \<in> set (diag xs) then 0 else 1) [- ?l .. ?a - 1]"
    proof (rule map_cong [OF refl])
      fix i assume "i \<in> set [- ?l .. ?a - 1]"
      then have "i \<noteq> x" using x by simp
      moreover have "i \<in> (\<lambda>v. v - 1) ` set (diag xs) \<longleftrightarrow> i + 1 \<in> set (diag xs)"
        by force
      ultimately show "?f i = (if i + 1 \<in> set (diag xs) then 0 else 1)"
        by (simp add: diag_Cons)
    qed
    also have "\<dots> = map (\<lambda>j. if j \<in> set (diag xs) then 0 else 1) [- ?l + 1 .. ?a - 1 + 1]"
      by (rule upto_shift)
    also have "\<dots> = zero_one_sequence xs"
      by (simp add: zero_one_sequence_diag)
    finally show ?thesis .
  qed
  have mid: "map ?f [?a .. x - 1] = replicate (nat (x - ?a)) 1"
  proof -
    have "map ?f [?a .. x - 1] = map (\<lambda>i. 1) [?a .. x - 1]"
    proof (rule map_cong [OF refl])
      fix i assume i: "i \<in> set [?a .. x - 1]"
      have "i + 1 \<notin> set (diag xs)"
        using diag_le [OF xs, of "i + 1"] i by auto
      then have "i \<notin> (\<lambda>v. v - 1) ` set (diag xs)" by force
      moreover have "i \<noteq> x" using i by simp
      ultimately show "?f i = 1" by (simp add: diag_Cons)
    qed
    also have "\<dots> = replicate (nat (x - ?a)) 1"
      by (simp add: map_replicate_const)
    finally show ?thesis .
  qed
  have top: "map ?f [x] = [0]"
    by (simp add: diag_Cons)
  have "zero_one_sequence (x # xs) = map ?f [- ?l .. x]"
    by (simp add: zero_one_sequence_diag get_part_def)
  also have "\<dots> = map ?f [- ?l .. ?a - 1] @ map ?f [?a .. x - 1] @ map ?f [x]"
    by (simp only: split map_append)
  finally show ?thesis
    by (simp only: low mid top)
qed

lemma sum_list_zero_one_sequence:
  "is_partition p \<Longrightarrow> sum_list (zero_one_sequence p) = get_part p 0"
proof (induction p)
  case Nil
  then show ?case by (simp add: zero_one_sequence_Nil get_part_def)
next
  case (Cons x xs)
  from Cons.prems have x: "get_part xs 0 \<le> x" and xs: "is_partition xs"
    by (simp_all add: is_partition_Cons)
  show ?case
    using Cons.IH [OF xs] x
    by (simp add: zero_one_sequence_Cons [OF Cons.prems] sum_list_replicate get_part_def)
qed

lemma zero_positions_snoc:
  "zero_positions (seq @ [c]) = zero_positions seq @ (if c = 0 then [length seq] else [])"
proof -
  have "filter (\<lambda>i. (seq @ [c]) ! i = 0) [0 ..< length seq] =
        filter (\<lambda>i. seq ! i = 0) [0 ..< length seq]"
    by (rule filter_cong) (simp_all add: nth_append)
  then show ?thesis
    by (simp add: zero_positions_def)
qed

lemma parts_of_snoc_nonzero: "c \<noteq> 0 \<Longrightarrow> parts_of (seq @ [c]) = parts_of seq"
  by (simp add: parts_of_def zero_positions_snoc)

lemma parts_of_snoc_zero:
  "parts_of (seq @ [0]) =
   (int (length seq) - int (length (zero_positions seq))) # parts_of seq"
proof -
  let ?z = "zero_positions seq"
  have "map (\<lambda>i. map int (?z @ [length seq]) ! i - int i) (rev [0 ..< length ?z]) =
        map (\<lambda>i. map int ?z ! i - int i) (rev [0 ..< length ?z])"
    by (rule map_cong) (simp_all add: nth_append)
  then show ?thesis
    by (simp add: parts_of_def zero_positions_snoc Let_def nth_append)
qed

lemma parts_of_replicate: "parts_of (seq @ replicate k 1) = parts_of seq"
proof (induction k)
  case 0
  then show ?case by simp
next
  case (Suc k)
  have "seq @ replicate (Suc k) 1 = (seq @ replicate k 1) @ [1]"
    by (simp add: replicate_append_same)
  then show ?case
    using Suc by (simp only: parts_of_snoc_nonzero [of 1, simplified])
qed

lemma length_minus_zeros:
  "binary seq \<Longrightarrow> int (length seq) - int (length (zero_positions seq)) = sum_list seq"
proof (induction seq rule: rev_induct)
  case Nil
  then show ?case by (simp add: zero_positions_def)
next
  case (snoc c seq)
  then have "binary seq" and "c = 0 \<or> c = 1"
    by (simp_all add: binary_def)
  with snoc.IH show ?case
    by (auto simp: zero_positions_snoc)
qed

lemma parts_of_zero_one_sequence: "is_partition p \<Longrightarrow> parts_of (zero_one_sequence p) = p"
proof (induction p)
  case Nil
  then show ?case by (simp add: zero_one_sequence_Nil parts_of_def zero_positions_def)
next
  case (Cons x xs)
  from Cons.prems have x: "get_part xs 0 \<le> x" and xs: "is_partition xs"
    by (simp_all add: is_partition_Cons)
  let ?s = "zero_one_sequence xs @ replicate (nat (x - get_part xs 0)) 1"
  have bin: "binary ?s"
    by (simp add: binary_append binary_zero_one_sequence) (simp add: binary_def list_all_iff)
  have "sum_list ?s = x"
    using sum_list_zero_one_sequence [OF xs] x by (simp add: sum_list_replicate)
  then have hd: "int (length ?s) - int (length (zero_positions ?s)) = x"
    using length_minus_zeros [OF bin] by simp
  have "parts_of (zero_one_sequence (x # xs)) = parts_of (?s @ [0])"
    by (simp add: zero_one_sequence_Cons [OF Cons.prems])
  also have "\<dots> = x # parts_of ?s"
    by (simp only: parts_of_snoc_zero hd)
  also have "parts_of ?s = xs"
    using Cons.IH [OF xs] by (simp only: parts_of_replicate)
  finally show ?case .
qed

lemma strip_zeros_partition: "is_partition p \<Longrightarrow> strip_zeros p = p"
proof (cases p rule: rev_cases)
  case Nil
  then show ?thesis by (simp add: strip_zeros_def)
next
  case (snoc ys y)
  assume "is_partition p"
  then have "y \<noteq> 0" using snoc by (auto simp: is_partition_def)
  then show ?thesis using snoc by (simp add: strip_zeros_def)
qed

lemma from_zero_one_parts_of: "from_zero_one seq = strip_zeros (parts_of seq)"
  by (simp add: from_zero_one_def parts_of_def zero_positions_def)

lemma from_zero_one_zero_one_sequence:
  "is_partition p \<Longrightarrow> from_zero_one (zero_one_sequence p) = p"
  by (simp add: from_zero_one_parts_of parts_of_zero_one_sequence strip_zeros_partition)

lemma invert_invert: "invert_zero_one (invert_zero_one seq) = seq"
  by (induction seq) (simp_all add: invert_zero_one_def)

lemma next_in_range: "0 < r \<Longrightarrow> 0 \<le> (w + b * (1 - code) - code) mod r \<and> (w + b * (1 - code) - code) mod r < r"
  for r :: int
  by simp

lemma distribute_nth:
  "0 < r \<Longrightarrow> length abacus = nat r \<Longrightarrow> 0 \<le> w \<Longrightarrow> w < r \<Longrightarrow> i < nat r \<Longrightarrow>
   distribute r b abacus w seq ! i =
   abacus ! i @ distribute r b (replicate (nat r) []) w seq ! i"
proof (induction seq arbitrary: abacus w)
  case Nil
  then show ?case by simp
next
  case (Cons code seq)
  let ?w' = "(w + b * (1 - code) - code) mod r"
  let ?E = "replicate (nat r) ([]::int list)"
  have nxt: "0 \<le> ?w'" "?w' < r" using Cons.prems(1) by simp_all
  have k: "nat w < nat r" using Cons.prems by simp
  have 1: "distribute r b abacus w (code # seq) ! i =
           (abacus[nat w := abacus ! nat w @ [code]]) ! i @ distribute r b ?E ?w' seq ! i"
    using Cons.IH [OF Cons.prems(1) _ nxt Cons.prems(5), of "abacus[nat w := abacus ! nat w @ [code]]"]
      Cons.prems(2) by simp
  have 2: "distribute r b ?E w (code # seq) ! i =
           (?E[nat w := ?E ! nat w @ [code]]) ! i @ distribute r b ?E ?w' seq ! i"
    using Cons.IH [OF Cons.prems(1) _ nxt Cons.prems(5), of "?E[nat w := ?E ! nat w @ [code]]"]
    by simp
  show ?case
    using k Cons.prems(2,5) unfolding 1 2
    by (cases "i = nat w") simp_all
qed

lemma distribute_pop:
  fixes r w b code :: int and seq :: "int list"
  assumes "0 < r" "0 \<le> w" "w < r"
  defines "E \<equiv> replicate (nat r) ([]::int list)"
  defines "w' \<equiv> (w + b * (1 - code) - code) mod r"
  shows "distribute r b E w (code # seq) ! nat w = code # distribute r b E w' seq ! nat w"
    and "(distribute r b E w (code # seq))[nat w := distribute r b E w' seq ! nat w] =
         distribute r b E w' seq"
proof -
  have nxt: "0 \<le> w'" "w' < r" using assms(1) by (simp_all add: w'_def)
  have k: "nat w < nat r" using assms by simp
  have nth: "distribute r b E w (code # seq) ! i =
             (E[nat w := [code]]) ! i @ distribute r b E w' seq ! i" if "i < nat r" for i
    using distribute_nth [OF assms(1) _ nxt that, of "E[nat w := [code]]" b seq] k
    by (simp add: E_def w'_def)
  show "distribute r b E w (code # seq) ! nat w = code # distribute r b E w' seq ! nat w"
    using nth [OF k] k by (simp add: E_def)
  show "(distribute r b E w (code # seq))[nat w := distribute r b E w' seq ! nat w] =
        distribute r b E w' seq"
  proof (rule nth_equalityI)
    show "length ((distribute r b E w (code # seq))[nat w := distribute r b E w' seq ! nat w]) =
          length (distribute r b E w' seq)"
      by simp
  next
    fix i
    assume "i < length ((distribute r b E w (code # seq))[nat w := distribute r b E w' seq ! nat w])"
    then have i: "i < nat r" by (simp add: E_def)
    show "(distribute r b E w (code # seq))[nat w := distribute r b E w' seq ! nat w] ! i =
          distribute r b E w' seq ! i"
    proof (cases "i = nat w")
      case True
      then show ?thesis using k by (simp add: E_def)
    next
      case False
      then show ?thesis using nth [OF i] i by (simp add: E_def)
    qed
  qed
qed

lemma binary_sum_ge: "binary seq \<Longrightarrow> 0 \<le> sum_list seq"
  by (induction seq) (auto simp: binary_def)

lemma binary_last_one_sum: "binary seq \<Longrightarrow> seq \<noteq> [] \<Longrightarrow> last seq = 1 \<Longrightarrow> 1 \<le> sum_list seq"
proof (induction seq)
  case Nil
  then show ?case by simp
next
  case (Cons c seq)
  have b: "binary seq" and c: "0 \<le> c" using Cons.prems(1) by (auto simp: binary_def)
  show ?case
  proof (cases "seq = []")
    case True
    with Cons.prems show ?thesis by simp
  next
    case False
    with Cons.IH [OF b] Cons.prems(3) c show ?thesis by simp
  qed
qed

lemma merge_distribute:
  "0 < r \<Longrightarrow> 0 \<le> w \<Longrightarrow> w < r \<Longrightarrow> binary seq \<Longrightarrow> seq = [] \<or> last seq = 1 \<Longrightarrow>
   n + sum_list seq = north \<Longrightarrow>
   from_G_abacus_loop r b north (distribute r b (replicate (nat r) []) w seq) w n acc =
   Some (Inr (acc @ seq))"
proof (induction seq arbitrary: w n acc)
  case Nil
  then show ?case by (subst from_G_abacus_loop.simps) simp
next
  case (Cons code seq)
  let ?E = "replicate (nat r) ([]::int list)"
  let ?w' = "(w + b * (1 - code) - code) mod r"
  let ?A = "distribute r b ?E w (code # seq)"
  have nxt: "0 \<le> ?w'" "?w' < r" using Cons.prems(1) by simp_all
  have bin: "binary seq" using Cons.prems(4) by (simp add: binary_def)
  have last: "seq = [] \<or> last seq = 1" using Cons.prems(5) by (auto split: if_splits)
  have "1 \<le> sum_list (code # seq)"
    using binary_last_one_sum [OF Cons.prems(4)] Cons.prems(5) by simp
  then have lt: "n < north" using Cons.prems(6) by simp
  have idx: "py_index ?A w = Some (nat w)"
    using Cons.prems(1-3) by (simp add: py_index_in_range)
  have hd: "?A ! nat w = code # distribute r b ?E ?w' seq ! nat w"
    by (rule distribute_pop(1) [OF Cons.prems(1-3)])
  have tl: "?A[nat w := distribute r b ?E ?w' seq ! nat w] = distribute r b ?E ?w' seq"
    by (rule distribute_pop(2) [OF Cons.prems(1-3)])
  have sum: "n + code + sum_list seq = north" using Cons.prems(6) by simp
  have "from_G_abacus_loop r b north ?A w n acc =
        from_G_abacus_loop r b north (distribute r b ?E ?w' seq) ?w' (n + code) (acc @ [code])"
    by (subst from_G_abacus_loop.simps)
       (simp only: lt if_True idx option.case hd list.case tl from_G_abacus_next_def)
  also have "\<dots> = Some (Inr ((acc @ [code]) @ seq))"
    by (rule Cons.IH [OF Cons.prems(1) nxt bin last sum])
  finally show ?case by simp
qed

lemma zero_one_sequence_last:
  "is_partition p \<Longrightarrow> zero_one_sequence p = [] \<or> last (zero_one_sequence p) = 0"
  by (cases p) (simp_all add: zero_one_sequence_Nil zero_one_sequence_Cons)

lemma invert_last:
  "seq = [] \<or> last seq = 0 \<Longrightarrow> invert_zero_one seq = [] \<or> last (invert_zero_one seq) = 1"
  by (cases "seq = []") (simp_all add: invert_zero_one_def last_map)

lemma total_north_steps_empty: "total_north_steps (replicate k []) = 0"
  by (induction k) (simp_all add: total_north_steps_def)

text \<open>
  Claim C1. For every partition \<open>p\<close>, every \<open>r \<ge> 1\<close> and every \<open>b\<close> with
  \<open>gcd(r, b) = 1\<close>, \<open>G_abacus\<close> returns an abacus and \<open>from_G_abacus\<close>, given that abacus
  with \<open>r\<close> (or with \<open>r\<close> left out) and \<open>b\<close>, returns \<open>p\<close>.
\<close>

theorem abacus_round_trip:
  assumes "is_partition p" and "0 < r" and "gcd r b = 1"
  shows "\<exists>abacus. G_abacus p r b = Inr abacus \<and>
           from_G_abacus abacus (Some r) b = Some (Inr p) \<and>
           from_G_abacus abacus None b = Some (Inr p)"
proof -
  let ?seq = "invert_zero_one (zero_one_sequence p)"
  let ?E = "replicate (nat r) ([]::int list)"
  let ?w = "sum_list ?seq mod r"
  let ?A = "distribute r b ?E ?w ?seq"
  have w: "0 \<le> ?w" "?w < r" using assms(2) by simp_all
  have A: "G_abacus p r b = Inr ?A" by (rule G_abacus_distribute [OF assms(2)])
  have bin: "binary ?seq"
    by (intro binary_invert_zero_one binary_zero_one_sequence)
  have last: "?seq = [] \<or> last ?seq = 1"
    by (intro invert_last zero_one_sequence_last assms(1))
  have total: "total_north_steps ?A = sum_list ?seq"
    using total_north_steps_distribute [OF assms(2) _ w, of ?E b ?seq]
    by (simp add: total_north_steps_empty)
  have loop: "from_G_abacus_loop r b (total_north_steps ?A) ?A (from_G_abacus_start ?A r) 0 [] =
              Some (Inr ?seq)"
    using merge_distribute [OF assms(2) w bin last, of 0 "sum_list ?seq" b "[]"]
    by (simp add: total from_G_abacus_start_def)
  have decode: "from_zero_one (invert_zero_one ?seq) = p"
    by (simp add: invert_invert from_zero_one_zero_one_sequence [OF assms(1)])
  have len: "int (length ?A) = r" using assms(2) by simp
  have "from_G_abacus ?A (Some r) b = Some (Inr p)"
    using assms(2,3) by (simp add: from_G_abacus_def loop decode)
  moreover have "from_G_abacus ?A None b = Some (Inr p)"
    using assms(2,3) by (simp add: from_G_abacus_def len loop decode)
  ultimately show ?thesis using A by simp
qed

theorem abacus_round_trip_witness:
  "is_partition [3, 1] \<and> (0::int) < 2 \<and> gcd (2::int) 1 = 1 \<and>
   (\<exists>abacus. G_abacus [3, 1] 2 1 = Inr abacus \<and>
      from_G_abacus abacus (Some 2) 1 = Some (Inr [3, 1]) \<and>
      from_G_abacus abacus None 1 = Some (Inr [3, 1]))"
proof -
  have h1: "is_partition [3, 1]" by (simp add: is_partition_def)
  have h2: "(0::int) < 2" by simp
  have h3: "gcd (2::int) 1 = 1" by simp
  show ?thesis using h1 h2 h3 abacus_round_trip [OF h1 h2 h3] by blast
qed

section \<open>Termination of the merge loop\<close>

lemma sum_length_pop:
  "k < length abacus \<Longrightarrow> abacus ! k = c # rest \<Longrightarrow>
   sum_list (map length (abacus[k := rest])) < sum_list (map length abacus)"
proof (induction abacus arbitrary: k)
  case Nil
  then show ?case by simp
next
  case (Cons wire abacus)
  then show ?case by (cases k) auto
qed

lemma total_north_steps_pop:
  "k < length abacus \<Longrightarrow> abacus ! k = c # rest \<Longrightarrow>
   total_north_steps (abacus[k := rest]) = total_north_steps abacus - c"
proof (induction abacus arbitrary: k)
  case Nil
  then show ?case by simp
next
  case (Cons wire abacus)
  then show ?case by (cases k) (auto simp: total_north_steps_def)
qed

lemma exists_nonempty_wire:
  "total_north_steps abacus \<noteq> 0 \<Longrightarrow> \<exists>j<length abacus. abacus ! j \<noteq> []"
proof (induction abacus)
  case Nil
  then show ?case by (simp add: total_north_steps_def)
next
  case (Cons wire abacus)
  show ?case
  proof (cases "wire = []")
    case True
    with Cons.prems have "total_north_steps abacus \<noteq> 0"
      by (simp add: total_north_steps_def)
    from Cons.IH [OF this] obtain j where "j < length abacus" "abacus ! j \<noteq> []" by blast
    then show ?thesis by (intro exI [of _ "Suc j"]) simp
  next
    case False
    then show ?thesis by (intro exI [of _ 0]) simp
  qed
qed

lemma wire_reachable:
  fixes r b w j :: int
  assumes "0 < r" and "gcd r b = 1" and "0 \<le> j" and "j < r"
  shows "\<exists>d::nat. (w + int d * b) mod r = j"
proof -
  from bezout_int [of r b] assms(2) obtain u v where uv: "u * r + v * b = 1" by auto
  then have vb: "v * b = 1 - u * r" by simp
  let ?d = "nat (((j - w) * v) mod r)"
  have d: "int ?d = ((j - w) * v) mod r" using assms(1) by simp
  have "(w + int ?d * b) mod r = (w + (j - w) * (v * b)) mod r"
    unfolding d mult.assoc [symmetric]
    by (intro mod_add_cong mod_mult_cong refl) simp
  also have "\<dots> = (j + (- (j - w) * u) * r) mod r"
    unfolding vb by (simp add: algebra_simps)
  also have "\<dots> = j mod r"
    by (simp only: mod_mult_self1)
  also have "\<dots> = j" using assms(3,4) by simp
  finally show ?thesis by blast
qed

lemma step_walk:
  fixes r b w :: int
  shows "((w + b) mod r + int d * b) mod r = (w + int (Suc d) * b) mod r"
  by (simp add: mod_simps algebra_simps)

lemma from_G_abacus_loop_terminates:
  assumes r: "0 < r" and g: "gcd r b = 1"
  shows "length abacus = nat r \<Longrightarrow> 0 \<le> w \<Longrightarrow> w < r \<Longrightarrow>
         n + total_north_steps abacus = north \<Longrightarrow>
         \<exists>path. from_G_abacus_loop r b north abacus w n acc = Some (Inr path)"
proof (induction "sum_list (map length abacus)" arbitrary: abacus w n acc rule: less_induct)
  case less
  note len = less.prems(1) and inv = less.prems(4)
  have stop: "\<exists>path. from_G_abacus_loop r b north abacus w' n acc' = Some (Inr path)"
    if "\<not> n < north" for w' acc'
    using that by (subst from_G_abacus_loop.simps) simp
  have pop: "\<exists>path. from_G_abacus_loop r b north abacus w' n acc' = Some (Inr path)"
    if w': "0 \<le> w'" "w' < r" and wire: "abacus ! nat w' = c # rest" for w' acc' c rest
  proof (cases "n < north")
    case False
    then show ?thesis by (rule stop)
  next
    case True
    have k: "nat w' < length abacus" using w' len by simp
    have idx: "py_index abacus w' = Some (nat w')"
      using w' len by (simp add: py_index_in_range)
    have nxt: "0 \<le> from_G_abacus_next r b w' c" "from_G_abacus_next r b w' c < r"
      using r by (simp_all add: from_G_abacus_next_def)
    have inv': "(n + c) + total_north_steps (abacus[nat w' := rest]) = north"
      using inv total_north_steps_pop [OF k wire] by simp
    have "from_G_abacus_loop r b north abacus w' n acc' =
          from_G_abacus_loop r b north (abacus[nat w' := rest]) (from_G_abacus_next r b w' c)
            (n + c) (acc' @ [c])"
      by (subst from_G_abacus_loop.simps) (simp only: True if_True idx option.case wire list.case)
    moreover have "\<exists>path. from_G_abacus_loop r b north (abacus[nat w' := rest])
        (from_G_abacus_next r b w' c) (n + c) (acc' @ [c]) = Some (Inr path)"
      using less.hyps [OF sum_length_pop [OF k wire] _ nxt inv'] len by simp
    ultimately show ?thesis by simp
  qed
  have inner: "\<exists>path. from_G_abacus_loop r b north abacus w' n acc' = Some (Inr path)"
    if "0 \<le> w'" "w' < r" "abacus ! nat ((w' + int d * b) mod r) \<noteq> []" for d w' acc'
    using that
  proof (induction d arbitrary: w' acc')
    case 0
    then obtain c rest where "abacus ! nat w' = c # rest"
      by (cases "abacus ! nat w'") simp_all
    then show ?case by (rule pop [OF "0.prems"(1,2)])
  next
    case (Suc d)
    show ?case
    proof (cases "abacus ! nat w'")
      case (Cons c rest)
      then show ?thesis by (rule pop [OF Suc.prems(1,2)])
    next
      case Nil
      show ?thesis
      proof (cases "n < north")
        case False
        then show ?thesis by (rule stop)
      next
        case True
        have idx: "py_index abacus w' = Some (nat w')"
          using Suc.prems(1,2) len by (simp add: py_index_in_range)
        have nxt: "from_G_abacus_next r b w' 0 = (w' + b) mod r"
          by (simp add: from_G_abacus_next_def)
        have rng: "0 \<le> (w' + b) mod r" "(w' + b) mod r < r" using r by simp_all
        have "from_G_abacus_loop r b north abacus w' n acc' =
              from_G_abacus_loop r b north abacus ((w' + b) mod r) (n + 0) (acc' @ [0])"
          by (subst from_G_abacus_loop.simps)
             (simp only: True if_True idx option.case Nil list.case nxt)
        moreover have "abacus ! nat (((w' + b) mod r + int d * b) mod r) \<noteq> []"
          unfolding step_walk by (rule Suc.prems(3))
        then have "\<exists>path. from_G_abacus_loop r b north abacus ((w' + b) mod r) n (acc' @ [0]) =
            Some (Inr path)"
          by (intro Suc.IH rng)
        ultimately show ?thesis by simp
      qed
    qed
  qed
  show ?case
  proof (cases "n < north")
    case False
    then show ?thesis by (rule stop)
  next
    case True
    with inv have "total_north_steps abacus \<noteq> 0" by auto
    from exists_nonempty_wire [OF this] obtain j where j: "j < length abacus" "abacus ! j \<noteq> []"
      by blast
    have "0 \<le> int j" "int j < r" using j(1) len by simp_all
    from wire_reachable [OF r g this, of w] obtain d where "(w + int d * b) mod r = int j"
      by blast
    then have "abacus ! nat ((w + int d * b) mod r) \<noteq> []" using j(2) by simp
    then show ?thesis by (rule inner [OF less.prems(2,3)])
  qed
qed

lemma stuck_loop_never_returns:
  assumes "from_G_abacus_loop r b north abacus w n acc = Some y"
  shows "\<not> (r = 1 \<and> b = 0 \<and> north = 1 \<and> abacus = [[], [1]] \<and> w = 0 \<and> n = 0)"
proof (rule from_G_abacus_loop.raw_induct
    [where P = "\<lambda>r b north abacus w n acc y.
       \<not> (r = 1 \<and> b = 0 \<and> north = 1 \<and> abacus = [[], [1]] \<and> w = 0 \<and> n = 0)", OF _ assms],
    goal_cases)
  case (1 f r b north abacus w n acc y)
  show ?case
  proof
    assume st: "r = 1 \<and> b = 0 \<and> north = 1 \<and> abacus = [[], [1]] \<and> w = 0 \<and> n = 0"
    with 1(2) have "f 1 0 1 [[], [1]] 0 0 (acc @ [0]) = Some y"
      by (simp add: py_index_def from_G_abacus_next_def)
    from 1(1) [OF this] show False by simp
  qed
qed

text \<open>
  Claim C7, as stated, fails: coprimality alone does not make \<open>from_G_abacus\<close> return.
  With \<open>r = 1\<close>, \<open>b = 0\<close> (so \<open>gcd(r, b) = 1\<close>) and the two binary wires \<open>[]\<close> and
  \<open>[1]\<close>, the loop waits for one symbol 1, reads only wire 0, which is empty, and never
  returns.
\<close>

theorem from_G_abacus_not_total:
  "gcd (1::int) 0 = 1 \<and> list_all binary [[], [1]] \<and> from_G_abacus [[], [1]] (Some 1) 0 = None"
proof -
  have "from_G_abacus_loop 1 0 1 [[], [1]] 0 0 [] = None"
    using stuck_loop_never_returns [of 1 0 1 "[[], [1]]" 0 0 "[]"]
    by (cases "from_G_abacus_loop 1 0 1 [[], [1]] 0 0 []") simp_all
  then have "from_G_abacus [[], [1]] (Some 1) 0 = None"
    by (simp add: from_G_abacus_def total_north_steps_def from_G_abacus_start_def)
  then show ?thesis by (simp add: binary_def)
qed

text \<open>
  Claim C7, amended. For every abacus of exactly \<open>r\<close> wires with \<open>r \<ge> 1\<close> (whatever
  the symbols on the wires) and every \<open>b\<close> with \<open>gcd(r, b) = 1\<close>, the merge loop
  terminates and \<open>from_G_abacus\<close> returns a partition, with \<open>r\<close> given or inferred.
\<close>

theorem from_G_abacus_total:
  assumes "0 < r" and "int (length abacus) = r" and "gcd r b = 1"
  shows "\<exists>p. from_G_abacus abacus (Some r) b = Some (Inr p) \<and>
             from_G_abacus abacus None b = Some (Inr p)"
proof -
  have len: "length abacus = nat r" using assms(2) by simp
  have w: "0 \<le> from_G_abacus_start abacus r" "from_G_abacus_start abacus r < r"
    using assms(1) by (simp_all add: from_G_abacus_start_def)
  obtain path where
    "from_G_abacus_loop r b (total_north_steps abacus) abacus (from_G_abacus_start abacus r) 0 [] =
     Some (Inr path)"
    using from_G_abacus_loop_terminates [OF assms(1,3) len w, of 0 "total_north_steps abacus" "[]"]
    by auto
  then show ?thesis
    using assms by (simp add: from_G_abacus_def)
qed

theorem from_G_abacus_total_witness:
  "(0::int) < 2 \<and> int (length [[0, 0, 1], [1, 0 :: int]]) = 2 \<and> gcd (2::int) 1 = 1 \<and>
   (\<exists>p. from_G_abacus [[0, 0, 1], [1, 0]] (Some 2) 1 = Some (Inr p) \<and>
        from_G_abacus [[0, 0, 1], [1, 0]] None 1 = Some (Inr p))"
proof -
  have h1: "(0::int) < 2" by simp
  have h2: "int (length [[0, 0, 1], [1, 0 :: int]]) = 2" by simp
  have h3: "gcd (2::int) 1 = 1" by simp
  show ?thesis using h1 h2 h3 from_G_abacus_total [OF h1 h2 h3] by blast
qed

section \<open>Dyck words and the charged abacus\<close>

lemma to_dyck_word_loop_Nil: "to_dyck_word_loop [] w = w"
  by (subst to_dyck_word_loop.simps) simp

lemma to_dyck_word_loop_snoc:
  "to_dyck_word_loop (xs @ [c]) w =
   to_dyck_word_loop (map (\<lambda>x. x - c) xs) (w @ replicate (nat c) 0 @ [1])"
  by (subst to_dyck_word_loop.simps) simp

lemma descending_snoc:
  assumes "descending (xs @ [c])"
  shows "descending (map (\<lambda>x. x - c) xs)" and "0 \<le> c"
    and "get_part (map (\<lambda>x. x - c) xs) 0 + c = (if xs = [] then c else get_part (xs @ [c]) 0)"
proof -
  from assms have s: "sorted_wrt (\<lambda>x y. y \<le> x) xs" and ge: "\<forall>x\<in>set xs. c \<le> x" and c: "0 \<le> c"
    by (auto simp: descending_def sorted_wrt_append list_all_iff)
  show "0 \<le> c" by (rule c)
  show "descending (map (\<lambda>x. x - c) xs)"
    using s ge by (auto simp: descending_def sorted_wrt_map list_all_iff)
  show "get_part (map (\<lambda>x. x - c) xs) 0 + c = (if xs = [] then c else get_part (xs @ [c]) 0)"
    by (cases xs) (simp_all add: get_part_def)
qed

lemma to_dyck_word_loop_counts:
  "descending cp \<Longrightarrow>
   int (length (to_dyck_word_loop cp w)) = int (length w) + int (length cp) + get_part cp 0 \<and>
   sum_list (to_dyck_word_loop cp w) = sum_list w + int (length cp) \<and>
   (binary w \<longrightarrow> binary (to_dyck_word_loop cp w))"
proof (induction "length cp" arbitrary: cp w)
  case 0
  then show ?case by (simp add: get_part_def to_dyck_word_loop_Nil)
next
  case (Suc k)
  then obtain xs c where cp: "cp = xs @ [c]"
    by (cases cp rule: rev_cases) simp_all
  note d = descending_snoc [OF Suc.prems [unfolded cp]]
  have k: "k = length (map (\<lambda>x. x - c) xs)" using Suc.hyps(2) cp by simp
  note IH = Suc.hyps(1) [OF k d(1), of "w @ replicate (nat c) 0 @ [1]"]
  have g: "get_part cp 0 = (if xs = [] then c else get_part (xs @ [c]) 0)"
    unfolding cp by (cases xs) (simp_all add: get_part_def)
  have b: "binary w \<Longrightarrow> binary (w @ replicate (nat c) 0 @ [1])"
    by (auto simp: binary_def list_all_iff)
  show ?case
    unfolding cp to_dyck_word_loop_snoc
    using IH d(2,3) g b unfolding cp
    by (simp add: sum_list_replicate)
qed

lemma partition_descending: "is_partition mu \<Longrightarrow> descending mu"
  by (auto simp: is_partition_def descending_def list_all_iff)

lemma partition_hd: "mu \<noteq> [] \<Longrightarrow> get_part mu 0 = hd mu"
  by (cases mu) (simp_all add: get_part_def)

lemma to_dyck_word_counts:
  assumes "is_partition mu" and "int (length mu) \<le> n" and "get_part mu 0 \<le> n" and "0 \<le> n"
  shows "int (length (to_dyck_word mu (Some n))) = 2 * n"
    and "sum_list (to_dyck_word mu (Some n)) = n"
    and "binary (to_dyck_word mu (Some n))"
proof -
  have rep1: "binary (replicate k 1)" for k by (simp add: binary_def list_all_iff)
  have rep0: "binary (replicate k 0)" for k by (simp add: binary_def list_all_iff)
  note c = to_dyck_word_loop_counts [OF partition_descending [OF assms(1)],
      of "replicate (nat (n - int (length mu))) 1"]
  have hd: "mu \<noteq> [] \<Longrightarrow> hd mu \<le> n"
    using assms(3) by (simp add: partition_hd)
  show "int (length (to_dyck_word mu (Some n))) = 2 * n"
  proof (cases "mu = []")
    case True
    then show ?thesis using assms(4) by (simp add: to_dyck_word_def)
  next
    case False
    then show ?thesis
      using c assms(2-4) hd by (simp add: to_dyck_word_def partition_hd)
  qed
  show "sum_list (to_dyck_word mu (Some n)) = n"
  proof (cases "mu = []")
    case True
    then show ?thesis using assms(4) by (simp add: to_dyck_word_def sum_list_replicate)
  next
    case False
    then show ?thesis
      using c assms(2-4) by (simp add: to_dyck_word_def sum_list_replicate)
  qed
  show "binary (to_dyck_word mu (Some n))"
    using c rep1 rep0 by (simp add: to_dyck_word_def binary_append)
qed

lemma py_max_nonempty: "xs \<noteq> [] \<Longrightarrow> py_max xs = Inr (Max (set xs))"
  by (cases xs) (simp_all add: py_max_def Max.set_eq_fold [symmetric])

lemma to_dyck_word_half_length:
  assumes "is_partition mu"
  shows "\<exists>n0. int (length (to_dyck_word mu None)) = 2 * n0 \<and>
              int (length mu) \<le> n0 \<and> get_part mu 0 \<le> n0 \<and> 0 \<le> n0"
proof (cases "mu = []")
  case True
  then show ?thesis by (simp add: to_dyck_word_def get_part_def)
next
  case False
  let ?L = "map (\<lambda>(i, l). int i + l + 1) (enumerate 0 mu)"
  let ?n0 = "fold max ?L (hd mu + 1)"
  have n0: "?n0 = Max (set ((hd mu + 1) # ?L))" by (simp only: Max.set_eq_fold)
  have hd: "hd mu + 1 \<le> ?n0" unfolding n0 by (intro Max_ge) simp_all
  have pos: "0 < hd mu"
    using assms False by (cases mu) (simp_all add: is_partition_def)
  have last: "0 < last mu"
    using assms False by (cases mu rule: rev_cases) (simp_all add: is_partition_def)
  have "(length mu - 1, last mu) \<in> set (enumerate 0 mu)"
    using False by (simp add: in_set_enumerate_eq last_conv_nth)
  then have "(\<lambda>(i, l). int i + l + 1) (length mu - 1, last mu) \<in>
             (\<lambda>(i, l). int i + l + 1) ` set (enumerate 0 mu)"
    by (rule imageI)
  then have "int (length mu - 1) + last mu + 1 \<in> set ((hd mu + 1) # ?L)"
    by simp
  then have "int (length mu - 1) + last mu + 1 \<le> ?n0"
    unfolding n0 by (intro Max_ge) simp_all
  then have len: "int (length mu) \<le> ?n0" using last False by simp
  have same: "to_dyck_word mu None = to_dyck_word mu (Some ?n0)"
    using False by (simp add: to_dyck_word_def)
  have g: "get_part mu 0 \<le> ?n0" using hd False by (simp add: partition_hd)
  have z: "0 \<le> ?n0" using hd pos by simp
  show ?thesis
    using to_dyck_word_counts(1) [OF assms len g z] len g z unfolding same by blast
qed

lemma sum_upt_int: "int (sum_list (map h [0 ..< k])) = (\<Sum>i = 0 ..< k. int (h i))"
  by (simp add: interv_sum_list_conv_sum_set_nat)

lemma sum_upt: "sum_list (map h [0 ..< k]) = (\<Sum>i = 0 ..< k. h i)" for h :: "nat \<Rightarrow> int"
  by (simp add: interv_sum_list_conv_sum_set_nat)

lemma charged_sums:
  fixes charges :: "int list" and n c_max :: int
  assumes "sum_list charges = 0"
  shows "(\<Sum>i = 0 ..< length charges. (c_max - charges ! i) + 2 * n) =
           int (length charges) * (2 * n + c_max)"
    and "(\<Sum>i = 0 ..< length charges. (c_max - charges ! i) + n) =
           int (length charges) * (n + c_max)"
proof -
  have s: "(\<Sum>i = 0 ..< length charges. charges ! i) = 0"
    using assms by (simp add: sum_list_sum_nth)
  have split: "(\<Sum>i = 0 ..< length charges. (c_max - charges ! i) + k) =
               int (length charges) * c_max + int (length charges) * k" for k
    using s by (simp add: sum.distrib sum_subtractf)
  show "(\<Sum>i = 0 ..< length charges. (c_max - charges ! i) + 2 * n) =
           int (length charges) * (2 * n + c_max)"
    unfolding split by (simp only: distrib_left add.commute)
  show "(\<Sum>i = 0 ..< length charges. (c_max - charges ! i) + n) =
           int (length charges) * (n + c_max)"
    unfolding split by (simp only: distrib_left add.commute)
qed

lemma half_le_div: "2 * n0 \<le> m \<Longrightarrow> n0 \<le> m div 2" for n0 m :: int
  by presburger

text \<open>
  Claim C10. When \<open>from_G_charges_and_quotient\<close> is called with \<open>r \<ge> 1\<close>, charges of
  length \<open>r\<close> that sum to zero and a quotient of \<open>r\<close> partitions, the abacus it builds
  (the Dyck words of the quotient padded to the common length \<open>2n\<close>, \<open>n\<close> the largest
  half-length, then \<open>c_max - charges[i]\<close> symbols 1 in front of wire \<open>i\<close>, \<open>c_max\<close> the
  largest charge) is binary, has \<open>r * (2n + c_max)\<close> symbols of which \<open>r * (n + c_max)\<close>
  are 1, and neither output check fails: the call goes on to \<open>from_G_abacus\<close>.
\<close>

theorem charged_abacus_counts:
  assumes r: "0 < r" and lc: "int (length charges) = r" and sc: "sum_list charges = 0"
    and lq: "int (length q) = r" and pq: "list_all is_partition q"
  shows "\<exists>n c_max abacus.
           charged_abacus charges (Some q) r = Inr (n, c_max, abacus) \<and>
           n = Max (set (map (\<lambda>mu. int (length (to_dyck_word mu None))) q)) div 2 \<and>
           c_max = Max (set charges) \<and>
           length abacus = nat r \<and> list_all binary abacus \<and>
           int (sum_list (map length abacus)) = r * (2 * n + c_max) \<and>
           sum_list (map ones abacus) = r * (n + c_max) \<and>
           from_G_charges_and_quotient charges (Some q) r b = from_G_abacus abacus (Some r) b"
proof -
  define Ls where "Ls = map (\<lambda>mu. int (length (to_dyck_word mu None))) q"
  define n where "n = Max (set Ls) div 2"
  define c_max where "c_max = Max (set charges)"
  define wire where
    "wire i = replicate (nat (c_max - charges ! i)) 1 @ map (\<lambda>mu. to_dyck_word mu (Some n)) q ! i"
    for i
  define A where "A = map wire [0 ..< nat r]"
  have ne: "q \<noteq> []" "charges \<noteq> []" using r lc lq by auto
  have lens: "length q = nat r" "length charges = nat r" using lc lq by simp_all
  have ca: "charged_abacus charges (Some q) r = Inr (n, c_max, A)"
    unfolding charged_abacus_def A_def wire_def n_def c_max_def Ls_def
    using lq ne by (simp add: py_max_nonempty)
  have wire: "int (length (wire i)) = (c_max - charges ! i) + 2 * n \<and>
              sum_list (wire i) = (c_max - charges ! i) + n \<and> binary (wire i)"
    if i: "i < nat r" for i
  proof -
    have mu: "is_partition (q ! i)" using pq i lens by (simp add: list_all_length)
    from to_dyck_word_half_length [OF mu] obtain n0 where
      n0: "int (length (to_dyck_word (q ! i) None)) = 2 * n0"
        "int (length (q ! i)) \<le> n0" "get_part (q ! i) 0 \<le> n0" "0 \<le> n0"
      by blast
    have "int (length (to_dyck_word (q ! i) None)) \<in> set Ls"
      using i lens unfolding Ls_def by (simp only: set_map) (rule imageI, simp)
    then have "2 * n0 \<le> Max (set Ls)" unfolding n0(1) [symmetric] by (intro Max_ge) simp_all
    then have le: "n0 \<le> n" unfolding n_def by (rule half_le_div)
    have b1: "int (length (q ! i)) \<le> n" and b2: "get_part (q ! i) 0 \<le> n" and b3: "0 \<le> n"
      using n0(2-4) le by simp_all
    note d = to_dyck_word_counts [OF mu b1 b2 b3]
    have "charges ! i \<in> set charges" using i lens by simp
    then have c: "charges ! i \<le> c_max" unfolding c_max_def by (intro Max_ge) simp_all
    have w: "wire i = replicate (nat (c_max - charges ! i)) 1 @ to_dyck_word (q ! i) (Some n)"
      using i lens by (simp add: wire_def)
    have "binary (replicate (nat (c_max - charges ! i)) 1)" by (simp add: binary_def list_all_iff)
    then show ?thesis
      unfolding w using d c by (simp add: sum_list_replicate binary_append)
  qed
  have lenA: "length A = nat r" by (simp add: A_def)
  have binA: "list_all binary A"
    using wire by (simp add: A_def list_all_iff)
  have "int (sum_list (map length A)) = (\<Sum>i = 0 ..< nat r. int (length (wire i)))"
    unfolding A_def map_map comp_def by (rule sum_upt_int)
  also have "\<dots> = (\<Sum>i = 0 ..< length charges. (c_max - charges ! i) + 2 * n)"
    unfolding lens by (rule sum.cong) (simp_all add: wire)
  also have "\<dots> = r * (2 * n + c_max)"
    unfolding charged_sums(1) [OF sc] lc ..
  finally have total_len: "int (sum_list (map length A)) = r * (2 * n + c_max)" .
  have "total_north_steps A = (\<Sum>i = 0 ..< nat r. sum_list (wire i))"
    unfolding total_north_steps_def A_def map_map comp_def by (rule sum_upt)
  also have "\<dots> = (\<Sum>i = 0 ..< length charges. (c_max - charges ! i) + n)"
    unfolding lens by (rule sum.cong) (simp_all add: wire)
  also have "\<dots> = r * (n + c_max)"
    unfolding charged_sums(2) [OF sc] lc ..
  finally have total_ones: "total_north_steps A = r * (n + c_max)" .
  have "map sum_list A = map ones A"
    using binA by (simp add: list_all_iff binary_ones)
  then have ones: "sum_list (map ones A) = r * (n + c_max)"
    using total_ones by (simp only: total_north_steps_def)
  have "from_G_charges_and_quotient charges (Some q) r b = from_G_abacus A (Some r) b"
    using lc sc total_len total_ones by (simp add: from_G_charges_and_quotient_def ca)
  then show ?thesis
    using ca lenA binA total_len ones unfolding n_def c_max_def Ls_def by blast
qed

theorem charged_abacus_counts_witness:
  "(0::int) < 2 \<and> int (length [1, - 1 :: int]) = 2 \<and> sum_list [1, - 1 :: int] = 0 \<and>
   int (length [[2, 1], [] :: int list]) = 2 \<and> list_all is_partition [[2, 1], []] \<and>
   (\<exists>n c_max abacus.
      charged_abacus [1, - 1] (Some [[2, 1], []]) 2 = Inr (n, c_max, abacus) \<and>
      n = Max (set (map (\<lambda>mu. int (length (to_dyck_word mu None))) [[2, 1], []])) div 2 \<and>
      c_max = Max (set [1, - 1]) \<and>
      length abacus = nat 2 \<and> list_all binary abacus \<and>
      int (sum_list (map length abacus)) = 2 * (2 * n + c_max) \<and>
      sum_list (map ones abacus) = 2 * (n + c_max) \<and>
      from_G_charges_and_quotient [1, - 1] (Some [[2, 1], []]) 2 1 = from_G_abacus abacus (Some 2) 1)"
proof -
  have h1: "(0::int) < 2" by simp
  have h2: "int (length [1, - 1 :: int]) = 2" by simp
  have h3: "sum_list [1, - 1 :: int] = 0" by simp
  have h4: "int (length [[2, 1], [] :: int list]) = 2" by simp
  have h5: "list_all is_partition [[2, 1], []]" by (simp add: is_partition_def)
  show ?thesis
    using h1 h2 h3 h4 h5 charged_abacus_counts [OF h1 h2 h3 h4 h5, of 1] by blast
qed

section \<open>Wires as functions of the path, and what the merge loop returns\<close>

lemma wire_of_append:
  "wire_of r b w (s @ t) k = wire_of r b w s k @ wire_of r b (walk r b w s) t k"
  by (induction s arbitrary: w) simp_all

lemma walk_append: "walk r b w (s @ t) = walk r b (walk r b w s) t"
  by (induction s arbitrary: w) simp_all

lemma walk_in_range: "0 < r \<Longrightarrow> 0 \<le> w \<Longrightarrow> w < r \<Longrightarrow> 0 \<le> walk r b w s \<and> walk r b w s < r"
  by (induction s arbitrary: w) simp_all

lemma distribute_wire_of:
  "0 < r \<Longrightarrow> 0 \<le> w \<Longrightarrow> w < r \<Longrightarrow> 0 \<le> k \<Longrightarrow> k < r \<Longrightarrow>
   distribute r b (replicate (nat r) []) w seq ! nat k = wire_of r b w seq k"
proof (induction seq arbitrary: w)
  case Nil
  then show ?case by simp
next
  case (Cons code seq)
  let ?w' = "(w + b * (1 - code) - code) mod r"
  let ?E = "replicate (nat r) ([]::int list)"
  have nxt: "0 \<le> ?w'" "?w' < r" using Cons.prems(1) by simp_all
  have k: "nat k < nat r" using Cons.prems by simp
  have "distribute r b ?E w (code # seq) ! nat k =
        (?E[nat w := [code]]) ! nat k @ distribute r b ?E ?w' seq ! nat k"
    using distribute_nth [OF Cons.prems(1) _ nxt k, of "?E[nat w := [code]]" b seq] Cons.prems(2,3)
    by simp
  also have "(?E[nat w := [code]]) ! nat k = (if w = k then [code] else [])"
    using Cons.prems k by (auto simp: nth_list_update)
  finally show ?case
    using Cons.IH [OF Cons.prems(1) nxt Cons.prems(4,5)] by simp
qed

lemma binary_wire_of: "binary seq \<Longrightarrow> binary (wire_of r b w seq k)"
  by (induction seq arbitrary: w) (auto simp: binary_def)

lemma strip_zeros_Cons:
  "strip_zeros (x # xs) = (if x = 0 \<and> strip_zeros xs = [] then [] else x # strip_zeros xs)"
proof -
  have "dropWhile (\<lambda>x. x = 0) (rev xs @ [x]) =
        (if \<forall>y\<in>set (rev xs). y = 0 then dropWhile (\<lambda>x. x = 0) [x]
         else dropWhile (\<lambda>x. x = 0) (rev xs) @ [x])"
    by (simp add: dropWhile_append)
  moreover have "(\<forall>y\<in>set (rev xs). y = 0) \<longleftrightarrow> dropWhile (\<lambda>x. x = 0) (rev xs) = []"
    by (simp add: dropWhile_eq_Nil_conv)
  ultimately show ?thesis
    by (simp add: strip_zeros_def)
qed

lemma strip_zeros_Nil: "strip_zeros [] = []"
  by (simp add: strip_zeros_def)

lemma strip_zeros_eq_Nil: "strip_zeros xs = [] \<longleftrightarrow> (\<forall>x\<in>set xs. x = 0)"
  by (simp add: strip_zeros_def dropWhile_eq_Nil_conv)

lemma strip_zeros_zeros: "strip_zeros (replicate y 0) = []"
  by (simp add: strip_zeros_eq_Nil)

lemma strip_zeros_append_zeros: "strip_zeros (xs @ replicate y 0) = strip_zeros xs"
  by (induction xs) (simp_all add: strip_zeros_Cons strip_zeros_zeros strip_zeros_Nil)


lemma strip_zeros_append_ones:
  "strip_zeros (replicate a 1 @ xs) = replicate a 1 @ strip_zeros xs"
  by (induction a) (simp_all add: strip_zeros_Cons)

lemma strip_zeros_cong:
  "strip_zeros xs = strip_zeros ys \<Longrightarrow> strip_zeros (zs @ xs) = strip_zeros (zs @ ys)"
  by (induction zs) (simp_all add: strip_zeros_Cons)

lemma strip_zeros_Cons_eq:
  "strip_zeros (c # xs) = strip_zeros (d # ys) \<Longrightarrow> c \<noteq> 0 \<or> d \<noteq> 0 \<Longrightarrow>
   c = d \<and> strip_zeros xs = strip_zeros ys"
  by (auto simp: strip_zeros_Cons split: if_splits)

lemma strip_zeros_Cons_zero_eq:
  "strip_zeros (0 # xs) = strip_zeros (0 # ys) \<Longrightarrow> strip_zeros xs = strip_zeros ys"
  by (auto simp: strip_zeros_Cons split: if_splits)

lemma binary_nonneg: "binary seq \<Longrightarrow> x \<in> set seq \<Longrightarrow> 0 \<le> x"
  by (auto simp: binary_def list_all_iff)

lemma binary_total_nonneg: "list_all binary A \<Longrightarrow> 0 \<le> total_north_steps A"
  unfolding total_north_steps_def
  by (rule sum_list_nonneg) (auto simp: list_all_iff intro: binary_sum_ge)

lemma binary_total_zero:
  assumes "list_all binary A" and "total_north_steps A = 0" and "k < length A"
  shows "strip_zeros (A ! k) = []"
proof -
  have "\<forall>s\<in>set (map sum_list A). s = 0"
    using assms(1,2) unfolding total_north_steps_def
    by (subst sum_list_nonneg_eq_0_iff [symmetric]) (auto simp: list_all_iff intro: binary_sum_ge)
  then have "sum_list (A ! k) = 0" using assms(3) by simp
  moreover have b: "binary (A ! k)" using assms(1,3) by (simp add: list_all_length)
  ultimately have "\<forall>x\<in>set (A ! k). x = 0"
    by (subst sum_list_nonneg_eq_0_iff [symmetric]) (auto intro: binary_nonneg)
  then show ?thesis by (simp add: strip_zeros_eq_Nil)
qed

lemma binary_pop:
  assumes "list_all binary A" and "k < length A" and "A ! k = c # rest"
  shows "list_all binary (A[k := rest])" and "c = 0 \<or> c = 1"
proof -
  have "binary (c # rest)" using assms by (metis list_all_length)
  then have c: "c = 0 \<or> c = 1" and rest: "binary rest" by (simp_all add: binary_def)
  show "c = 0 \<or> c = 1" by (rule c)
  show "list_all binary (A[k := rest])"
    using assms(1) rest by (auto simp: list_all_iff dest!: subsetD [OF set_update_subset_insert])
qed

lemma represents_Nil:
  assumes "\<And>k. 0 \<le> k \<Longrightarrow> k < r \<Longrightarrow> strip_zeros (A ! nat k) = []"
  shows "represents r b w A []"
  using assms by (simp add: represents_def binary_def strip_zeros_Nil)

lemma represents_pop:
  assumes w: "0 \<le> w" "w < r" and wire: "A ! nat w = c # rest" and k: "nat w < length A"
    and c: "c = 0 \<or> c = 1" and ne: "seq \<noteq> [] \<or> c = 1"
    and rep: "represents r b ((w + b * (1 - c) - c) mod r) (A[nat w := rest]) seq"
  shows "represents r b w A (c # seq)"
proof -
  let ?w' = "(w + b * (1 - c) - c) mod r"
  from rep have bin: "binary seq" and last: "seq = [] \<or> last seq = 1"
    and wires: "\<And>k. 0 \<le> k \<Longrightarrow> k < r \<Longrightarrow>
      strip_zeros (wire_of r b ?w' seq k) = strip_zeros ((A[nat w := rest]) ! nat k)"
    by (simp_all add: represents_def)
  have 1: "binary (c # seq)" using c bin by (auto simp: binary_def)
  have 2: "c # seq = [] \<or> last (c # seq) = 1" using last ne by auto
  have 3: "strip_zeros (wire_of r b w (c # seq) j) = strip_zeros (A ! nat j)"
    if j: "0 \<le> j" "j < r" for j
  proof (cases "j = w")
    case True
    have "strip_zeros (wire_of r b ?w' seq j) = strip_zeros rest"
      using wires [OF j] k True by simp
    then have "strip_zeros ([c] @ wire_of r b ?w' seq j) = strip_zeros ([c] @ rest)"
      by (rule strip_zeros_cong)
    then show ?thesis using True wire by simp
  next
    case False
    then have "nat j \<noteq> nat w" using j w by simp
    then show ?thesis using wires [OF j] False by simp
  qed
  show ?thesis
    unfolding represents_def using 1 2 3 by (intro conjI allI impI)
qed

lemma represents_skip:
  assumes w: "0 \<le> w" "w < r" and wire: "A ! nat w = []" and ne: "seq \<noteq> []"
    and rep: "represents r b ((w + b) mod r) A seq"
  shows "represents r b w A (0 # seq)"
proof -
  let ?w' = "(w + b) mod r"
  from rep have bin: "binary seq" and last: "seq = [] \<or> last seq = 1"
    and wires: "\<And>k. 0 \<le> k \<Longrightarrow> k < r \<Longrightarrow>
      strip_zeros (wire_of r b ?w' seq k) = strip_zeros (A ! nat k)"
    by (simp_all add: represents_def)
  have 1: "binary (0 # seq)" using bin by (simp add: binary_def)
  have 2: "0 # seq = [] \<or> last (0 # seq) = 1" using last ne by simp
  have 3: "strip_zeros (wire_of r b w (0 # seq) j) = strip_zeros (A ! nat j)"
    if j: "0 \<le> j" "j < r" for j
  proof (cases "j = w")
    case True
    have "strip_zeros (wire_of r b ?w' seq j) = []"
      using wires [OF j] True wire by (simp add: strip_zeros_Nil)
    then show ?thesis using True wire by (simp add: strip_zeros_Cons strip_zeros_Nil)
  next
    case False
    then show ?thesis using wires [OF j] by simp
  qed
  show ?thesis
    unfolding represents_def using 1 2 3 by (intro conjI allI impI)
qed

text \<open>
  What the merge loop returns on a binary abacus of \<open>r\<close> wires: a path that holds as
  many symbols 1 as the abacus and represents it.
\<close>

lemma from_G_abacus_loop_spec:
  assumes r: "0 < r" and g: "gcd r b = 1"
  shows "length A = nat r \<Longrightarrow> list_all binary A \<Longrightarrow> 0 \<le> w \<Longrightarrow> w < r \<Longrightarrow>
         n + total_north_steps A = north \<Longrightarrow>
         \<exists>seq. from_G_abacus_loop r b north A w n acc = Some (Inr (acc @ seq)) \<and>
               n + sum_list seq = north \<and> represents r b w A seq"
proof (induction "sum_list (map length A)" arbitrary: A w n acc rule: less_induct)
  case less
  note len = less.prems(1) and bin = less.prems(2) and inv = less.prems(5)
  define Spec where "Spec w' acc' \<longleftrightarrow>
    (\<exists>seq. from_G_abacus_loop r b north A w' n acc' = Some (Inr (acc' @ seq)) \<and>
       n + sum_list seq = north \<and> represents r b w' A seq)" for w' acc'
  have le: "n \<le> north" using inv binary_total_nonneg [OF bin] by simp
  have stop: "Spec w' acc'" if "\<not> n < north" for w' acc'
  proof -
    from that le have eq: "n = north" by simp
    with inv have "total_north_steps A = 0" by simp
    then have z: "strip_zeros (A ! nat k) = []" if "0 \<le> k" "k < r" for k
      using binary_total_zero [OF bin, of "nat k"] that len by simp
    have 1: "from_G_abacus_loop r b north A w' n acc' = Some (Inr (acc' @ []))"
      using that by (subst from_G_abacus_loop.simps) simp
    have 2: "n + sum_list [] = north" using eq by simp
    have 3: "represents r b w' A []" using z by (rule represents_Nil)
    show ?thesis unfolding Spec_def using 1 2 3 by blast
  qed
  have pop: "Spec w' acc'"
    if w': "0 \<le> w'" "w' < r" and wire: "A ! nat w' = c # rest" for w' acc' c rest
  proof (cases "n < north")
    case False
    then show ?thesis by (rule stop)
  next
    case True
    let ?w'' = "(w' + b * (1 - c) - c) mod r"
    let ?A' = "A[nat w' := rest]"
    have k: "nat w' < length A" using w' len by simp
    have idx: "py_index A w' = Some (nat w')"
      using w' len by (simp add: py_index_in_range)
    have nxt: "0 \<le> ?w''" "?w'' < r" using r by simp_all
    have inv': "(n + c) + total_north_steps ?A' = north"
      using inv total_north_steps_pop [OF k wire] by simp
    note bp = binary_pop [OF bin k wire]
    have len': "length ?A' = nat r" using len by simp
    have step: "from_G_abacus_loop r b north A w' n acc' =
          from_G_abacus_loop r b north ?A' ?w'' (n + c) (acc' @ [c])"
      by (subst from_G_abacus_loop.simps)
         (simp only: True if_True idx option.case wire list.case from_G_abacus_next_def)
    from less.hyps [OF sum_length_pop [OF k wire] len' bp(1) nxt inv', of "acc' @ [c]"]
    obtain seq where seq:
      "from_G_abacus_loop r b north ?A' ?w'' (n + c) (acc' @ [c]) = Some (Inr ((acc' @ [c]) @ seq))"
      "(n + c) + sum_list seq = north" "represents r b ?w'' ?A' seq"
      by blast
    have 1: "from_G_abacus_loop r b north A w' n acc' = Some (Inr (acc' @ c # seq))"
      using step seq(1) by simp
    have 2: "n + sum_list (c # seq) = north" using seq(2) by simp
    have ne: "seq \<noteq> [] \<or> c = 1"
    proof (cases "seq = []")
      case True
      with seq(2) \<open>n < north\<close> bp(2) show ?thesis by auto
    next
      case False
      then show ?thesis by simp
    qed
    have 3: "represents r b w' A (c # seq)"
      by (rule represents_pop [OF w' wire k bp(2) ne seq(3)])
    show ?thesis unfolding Spec_def using 1 2 3 by blast
  qed
  have inner: "Spec w' acc'"
    if "0 \<le> w'" "w' < r" "A ! nat ((w' + int d * b) mod r) \<noteq> []" for d w' acc'
    using that
  proof (induction d arbitrary: w' acc')
    case (0 w' acc')
    then obtain c rest where "A ! nat w' = c # rest"
      by (cases "A ! nat w'") simp_all
    then show ?case by (rule pop [OF "0.prems"(1,2)])
  next
    case (Suc d w' acc')
    show ?case
    proof (cases "A ! nat w'")
      case (Cons c rest)
      then show ?thesis by (rule pop [OF Suc.prems(1,2)])
    next
      case Nil
      show ?thesis
      proof (cases "n < north")
        case False
        then show ?thesis by (rule stop)
      next
        case True
        let ?w'' = "(w' + b) mod r"
        have idx: "py_index A w' = Some (nat w')"
          using Suc.prems(1,2) len by (simp add: py_index_in_range)
        have nxt: "from_G_abacus_next r b w' 0 = ?w''"
          by (simp add: from_G_abacus_next_def)
        have rng: "0 \<le> ?w''" "?w'' < r" using r by simp_all
        have step: "from_G_abacus_loop r b north A w' n acc' =
              from_G_abacus_loop r b north A ?w'' (n + 0) (acc' @ [0])"
          by (subst from_G_abacus_loop.simps)
             (simp only: True if_True idx option.case Nil list.case nxt)
        have "A ! nat ((?w'' + int d * b) mod r) \<noteq> []"
          unfolding step_walk by (rule Suc.prems(3))
        then have "Spec ?w'' (acc' @ [0])"
          by (intro Suc.IH rng)
        then obtain seq where seq:
          "from_G_abacus_loop r b north A ?w'' n (acc' @ [0]) = Some (Inr ((acc' @ [0]) @ seq))"
          "n + sum_list seq = north" "represents r b ?w'' A seq"
          unfolding Spec_def by blast
        have ne: "seq \<noteq> []" using seq(2) True by auto
        have 1: "from_G_abacus_loop r b north A w' n acc' = Some (Inr (acc' @ 0 # seq))"
          using step seq(1) by simp
        have 2: "n + sum_list (0 # seq) = north" using seq(2) by simp
        have 3: "represents r b w' A (0 # seq)"
          by (rule represents_skip [OF Suc.prems(1,2) Nil ne seq(3)])
        show ?thesis unfolding Spec_def using 1 2 3 by blast
      qed
    qed
  qed
  have "Spec w acc"
  proof (cases "n < north")
    case False
    then show ?thesis by (rule stop)
  next
    case True
    with inv have "total_north_steps A \<noteq> 0" by auto
    from exists_nonempty_wire [OF this] obtain j where j: "j < length A" "A ! j \<noteq> []"
      by blast
    have "0 \<le> int j" "int j < r" using j(1) len by simp_all
    from wire_reachable [OF r g this, of w] obtain d where "(w + int d * b) mod r = int j"
      by blast
    then have "A ! nat ((w + int d * b) mod r) \<noteq> []" using j(2) by simp
    then show ?thesis by (rule inner [OF less.prems(3,4)])
  qed
  then show ?case unfolding Spec_def .
qed

lemma strip_zeros_Cons_same:
  "strip_zeros (c # xs) = strip_zeros (c # ys) \<Longrightarrow> strip_zeros xs = strip_zeros ys"
  by (auto simp: strip_zeros_Cons split: if_splits)

lemma strip_zeros_Cons_head:
  "strip_zeros (c # xs) = strip_zeros (d # ys) \<Longrightarrow> c = 0 \<or> c = 1 \<Longrightarrow> d = 0 \<or> d = 1 \<Longrightarrow> c = d"
  by (auto simp: strip_zeros_Cons split: if_splits)

lemma strip_zeros_nonzero: "x \<in> set xs \<Longrightarrow> x \<noteq> 0 \<Longrightarrow> strip_zeros xs \<noteq> []"
  by (auto simp: strip_zeros_eq_Nil)

lemma one_on_some_wire:
  "0 < r \<Longrightarrow> 0 \<le> w \<Longrightarrow> w < r \<Longrightarrow> 1 \<in> set t \<Longrightarrow>
   \<exists>k. 0 \<le> k \<and> k < r \<and> strip_zeros (wire_of r b w t k) \<noteq> []"
proof (induction t arbitrary: w)
  case Nil
  then show ?case by simp
next
  case (Cons c t)
  let ?w' = "(w + b * (1 - c) - c) mod r"
  show ?case
  proof (cases "c = 1")
    case True
    have "strip_zeros (wire_of r b w (c # t) w) \<noteq> []"
      using True by (intro strip_zeros_nonzero [of 1]) simp_all
    with Cons.prems(2,3) show ?thesis by blast
  next
    case False
    with Cons.prems(4) have "1 \<in> set t" by simp
    moreover have "0 \<le> ?w'" "?w' < r" using Cons.prems(1) by simp_all
    ultimately obtain k where k: "0 \<le> k" "k < r" "strip_zeros (wire_of r b ?w' t k) \<noteq> []"
      using Cons.IH [OF Cons.prems(1)] by blast
    from k(3) obtain x where "x \<in> set (wire_of r b ?w' t k)" "x \<noteq> 0"
      by (auto simp: strip_zeros_eq_Nil)
    then have "strip_zeros (wire_of r b w (c # t) k) \<noteq> []"
      by (intro strip_zeros_nonzero [of x]) simp_all
    with k(1,2) show ?thesis by blast
  qed
qed

lemma ends_with_one_nonempty_wire:
  assumes "0 < r" and "0 \<le> w" and "w < r" and "t \<noteq> []" and "t = [] \<or> last t = 1"
  shows "\<exists>k. 0 \<le> k \<and> k < r \<and> strip_zeros (wire_of r b w t k) \<noteq> []"
proof -
  from assms(4,5) have "1 \<in> set t" by (metis last_in_set)
  then show ?thesis by (rule one_on_some_wire [OF assms(1-3)])
qed

lemma path_unique:
  assumes r: "0 < r"
  shows "binary s \<Longrightarrow> binary t \<Longrightarrow> s = [] \<or> last s = 1 \<Longrightarrow> t = [] \<or> last t = 1 \<Longrightarrow>
         0 \<le> w \<Longrightarrow> w < r \<Longrightarrow>
         (\<And>k. 0 \<le> k \<Longrightarrow> k < r \<Longrightarrow>
            strip_zeros (wire_of r b w s k) = strip_zeros (wire_of r b w t k)) \<Longrightarrow>
         s = t"
proof (induction s arbitrary: t w)
  case Nil
  show ?case
  proof (rule ccontr)
    assume "[] \<noteq> t"
    then have "t \<noteq> []" by simp
    from ends_with_one_nonempty_wire [OF r Nil.prems(5,6) this Nil.prems(4)]
    obtain k where "0 \<le> k" "k < r" "strip_zeros (wire_of r b w t k) \<noteq> []" by blast
    with Nil.prems(7) [of k] show False by (simp add: strip_zeros_Nil)
  qed
next
  case (Cons c s)
  show ?case
  proof (cases t)
    case Nil
    have "c # s \<noteq> []" by simp
    from ends_with_one_nonempty_wire [OF r Cons.prems(5,6) this Cons.prems(3)]
    obtain k where "0 \<le> k" "k < r" "strip_zeros (wire_of r b w (c # s) k) \<noteq> []" by blast
    with Cons.prems(7) [of k] Nil show ?thesis by (simp add: strip_zeros_Nil)
  next
    case (Cons d t')
    let ?wc = "(w + b * (1 - c) - c) mod r"
    let ?wd = "(w + b * (1 - d) - d) mod r"
    have c: "c = 0 \<or> c = 1" and bs: "binary s"
      using Cons.prems(1) by (simp_all add: binary_def)
    have d: "d = 0 \<or> d = 1" and bt: "binary t'"
      using Cons.prems(2) Cons by (simp_all add: binary_def)
    have "strip_zeros (c # wire_of r b ?wc s w) = strip_zeros (d # wire_of r b ?wd t' w)"
      using Cons.prems(7) [OF Cons.prems(5,6)] Cons by simp
    then have cd: "c = d" using c d by (rule strip_zeros_Cons_head)
    have nxt: "0 \<le> ?wc" "?wc < r" using r by simp_all
    have ls: "s = [] \<or> last s = 1" using Cons.prems(3) by (auto split: if_splits)
    have lt: "t' = [] \<or> last t' = 1" using Cons.prems(4) Cons by (auto split: if_splits)
    have wires: "strip_zeros (wire_of r b ?wc s k) = strip_zeros (wire_of r b ?wc t' k)"
      if k: "0 \<le> k" "k < r" for k
    proof (cases "k = w")
      case True
      have "strip_zeros (c # wire_of r b ?wc s k) = strip_zeros (c # wire_of r b ?wc t' k)"
        using Cons.prems(7) [OF k] Cons cd True by simp
      then show ?thesis by (rule strip_zeros_Cons_same)
    next
      case False
      then show ?thesis using Cons.prems(7) [OF k] Cons cd by simp
    qed
    have "s = t'" by (rule Cons.IH [OF bs bt ls lt nxt wires])
    with cd Cons show ?thesis by simp
  qed
qed

lemma represents_unique:
  assumes "0 < r" and "0 \<le> w" and "w < r"
    and "represents r b w A s" and "represents r b w A t"
  shows "s = t"
proof (rule path_unique [OF assms(1) _ _ _ _ assms(2,3)])
  show "binary s" "s = [] \<or> last s = 1" using assms(4) by (simp_all add: represents_def)
  show "binary t" "t = [] \<or> last t = 1" using assms(5) by (simp_all add: represents_def)
  fix k assume "0 \<le> k" "k < r"
  then show "strip_zeros (wire_of r b w s k) = strip_zeros (wire_of r b w t k)"
    using assms(4,5) by (simp add: represents_def)
qed

text \<open>
  \<open>from_G_abacus\<close> on a binary abacus of \<open>r\<close> wires returns the partition read from
  the one path that represents the abacus.
\<close>

lemma from_G_abacus_represents:
  assumes r: "0 < r" and g: "gcd r b = 1" and len: "length A = nat r" and bin: "list_all binary A"
    and rep: "represents r b (total_north_steps A mod r) A seq"
  shows "from_G_abacus A (Some r) b = Some (Inr (from_zero_one (invert_zero_one seq)))"
proof -
  let ?w = "total_north_steps A mod r"
  have w: "0 \<le> ?w" "?w < r" using r by simp_all
  from from_G_abacus_loop_spec [OF r g len bin w, of 0 "total_north_steps A" "[]"]
  obtain seq' where seq':
    "from_G_abacus_loop r b (total_north_steps A) A ?w 0 [] = Some (Inr ([] @ seq'))"
    "represents r b ?w A seq'"
    by auto
  have "seq' = seq" by (rule represents_unique [OF r w seq'(2) rep])
  then show ?thesis
    using seq'(1) r g by (simp add: from_G_abacus_def from_G_abacus_start_def)
qed


section \<open>The reference distribution along a run of symbols 1\<close>

lemma expected_nth_int:
  "0 \<le> k \<Longrightarrow> k < r \<Longrightarrow>
   expected north r ! nat k = north div r + (if 0 < k \<and> k \<le> north mod r then 1 else 0)"
  by (simp add: expected_def)

lemma div_mod_succ:
  fixes T r :: int
  assumes "0 < r"
  shows "(T + 1) mod r = 0 \<Longrightarrow> T mod r = r - 1 \<and> (T + 1) div r = T div r + 1"
    and "(T + 1) mod r \<noteq> 0 \<Longrightarrow> (T + 1) mod r = T mod r + 1 \<and> (T + 1) div r = T div r"
proof -
  let ?q = "T div r" and ?m = "T mod r"
  have T: "T = r * ?q + ?m" by simp
  have m: "0 \<le> ?m" "?m < r" using assms by simp_all
  have small: "(T + 1) mod r = ?m + 1 \<and> (T + 1) div r = ?q" if "?m + 1 < r"
  proof -
    have e: "T + 1 = r * ?q + (?m + 1)" using T by simp
    have "(T + 1) div r = ?q" using m that by (intro int_div_pos_eq [OF e]) simp_all
    moreover have "(T + 1) mod r = ?m + 1" using m that by (intro int_mod_pos_eq [OF e]) simp_all
    ultimately show ?thesis by simp
  qed
  have big: "(T + 1) mod r = 0 \<and> (T + 1) div r = ?q + 1" if "?m + 1 = r"
  proof -
    have "T + 1 = r * ?q + (?m + 1)" using T by simp
    also have "\<dots> = r * ?q + r" using that by simp
    also have "\<dots> = r * (?q + 1) + 0" by (simp add: algebra_simps)
    finally have e: "T + 1 = r * (?q + 1) + 0" .
    have "(T + 1) div r = ?q + 1" using assms by (intro int_div_pos_eq [OF e]) simp_all
    moreover have "(T + 1) mod r = 0" using assms by (intro int_mod_pos_eq [OF e]) simp_all
    ultimately show ?thesis by simp
  qed
  have cases: "?m + 1 < r \<or> ?m + 1 = r" using m by auto
  show "(T + 1) mod r = 0 \<Longrightarrow> T mod r = r - 1 \<and> (T + 1) div r = T div r + 1"
    using cases small big m by auto
  show "(T + 1) mod r \<noteq> 0 \<Longrightarrow> (T + 1) mod r = T mod r + 1 \<and> (T + 1) div r = T div r"
    using cases small big by auto
qed

lemma expected_succ:
  assumes "0 < r" and "0 \<le> k" and "k < r"
  shows "expected (T + 1) r ! nat k =
         expected T r ! nat k + (if (T + 1) mod r = k then 1 else 0)"
proof (cases "(T + 1) mod r = 0")
  case True
  from div_mod_succ(1) [OF assms(1) True] show ?thesis
    using assms True by (auto simp: expected_nth_int)
next
  case False
  from div_mod_succ(2) [OF assms(1) False] show ?thesis
    using assms False by (auto simp: expected_nth_int)
qed

lemma expected_multiple:
  assumes "0 < r" and "0 \<le> k" and "k < r"
  shows "expected (r * N) r ! nat k = N"
  using assms by (simp add: expected_nth_int)

lemma nat_diff_succ: "c \<le> a0 \<Longrightarrow> a = a0 + 1 \<Longrightarrow> nat (a - c) = Suc (nat (a0 - c))"
  for a a0 c :: int
  by simp

text \<open>
  The leading symbols 1 of a path: \<open>j\<close> of them in front of a path that holds \<open>l\<close>
  more bring wire \<open>k\<close> from its reference count for \<open>l\<close> to the one for \<open>l + j\<close>.
\<close>

lemma wire_of_ones:
  assumes r: "0 < r" and k: "0 \<le> k" "k < r"
  shows "expected l r ! nat k \<le> expected (l + int j) r ! nat k \<and>
         wire_of r b ((l + int j) mod r) (replicate j 1) k =
           replicate (nat (expected (l + int j) r ! nat k - expected l r ! nat k)) 1 \<and>
         walk r b ((l + int j) mod r) (replicate j 1) = l mod r"
proof (induction j)
  case 0
  then show ?case by simp
next
  case (Suc j)
  let ?e = "\<lambda>t. expected t r ! nat k"
  have nxt: "((l + int (Suc j)) mod r + b * (1 - 1) - 1) mod r = (l + int j) mod r"
    by (simp add: mod_simps)
  have s: "l + int (Suc j) = (l + int j) + 1" by simp
  have e: "?e (l + int (Suc j)) = ?e (l + int j) + (if (l + int (Suc j)) mod r = k then 1 else 0)"
    unfolding s by (rule expected_succ [OF r k])
  from Suc have IH1: "?e l \<le> ?e (l + int j)"
    and IH2: "wire_of r b ((l + int j) mod r) (replicate j 1) k =
              replicate (nat (?e (l + int j) - ?e l)) 1"
    and IH3: "walk r b ((l + int j) mod r) (replicate j 1) = l mod r"
    by simp_all
  have "?e (l + int j) \<le> ?e (l + int j) + (if (l + int (Suc j)) mod r = k then 1 else 0)"
    by (rule le_add_same_cancel1 [THEN iffD2]) (rule if_split [THEN iffD2], simp)
  then have "?e (l + int j) \<le> ?e (l + int (Suc j))" by (simp only: e)
  with IH1 have 1: "?e l \<le> ?e (l + int (Suc j))" by (rule order_trans)
  have 2: "wire_of r b ((l + int (Suc j)) mod r) (replicate (Suc j) 1) k =
           replicate (nat (?e (l + int (Suc j)) - ?e l)) 1"
  proof -
    have step: "wire_of r b ((l + int (Suc j)) mod r) (replicate (Suc j) 1) k =
        (if (l + int (Suc j)) mod r = k then [1] else []) @
        replicate (nat (?e (l + int j) - ?e l)) 1"
      by (simp only: replicate_Suc wire_of.simps nxt IH2)
    show ?thesis
    proof (cases "(l + int (Suc j)) mod r = k")
      case True
      have e1: "?e (l + int (Suc j)) = ?e (l + int j) + 1"
        using e True by (simp only: if_P if_True)
      have N: "nat (?e (l + int (Suc j)) - ?e l) = Suc (nat (?e (l + int j) - ?e l))"
        by (rule nat_diff_succ [OF IH1 e1])
      show ?thesis
        unfolding step N by (simp only: if_P [OF True] replicate_Suc append_Cons append_Nil)
    next
      case False
      have e0: "?e (l + int (Suc j)) = ?e (l + int j) + 0"
        using e False by (simp only: if_not_P if_False)
      have N: "nat (?e (l + int (Suc j)) - ?e l) = nat (?e (l + int j) - ?e l)"
        by (simp only: e0 add_0_right)
      show ?thesis
        unfolding step N by (simp only: if_not_P [OF False] append_Nil)
    qed
  qed
  have 3: "walk r b ((l + int (Suc j)) mod r) (replicate (Suc j) 1) = l mod r"
    by (simp only: replicate_Suc walk.simps nxt IH3)
  show ?case using 1 2 3 by blast
qed

section \<open>Paths, Dyck words and the decoding of a wire\<close>

lemma invert_append: "invert_zero_one (xs @ ys) = invert_zero_one xs @ invert_zero_one ys"
  by (simp add: invert_zero_one_def)

lemma invert_replicate: "invert_zero_one (replicate n c) = replicate n (1 - c)"
  by (simp add: invert_zero_one_def)

lemma invert_single: "invert_zero_one [c] = [1 - c]"
  by (simp add: invert_zero_one_def)

lemma path_of_partition: "is_partition p \<Longrightarrow> invert_zero_one (zero_one_sequence p) = path_of p"
proof (induction p)
  case Nil
  then show ?case by (simp add: zero_one_sequence_Nil invert_zero_one_def)
next
  case (Cons x xs)
  from Cons.prems have xs: "is_partition xs" by (simp add: is_partition_Cons)
  show ?case
    using Cons.IH [OF xs]
    by (simp add: zero_one_sequence_Cons [OF Cons.prems] invert_append invert_replicate invert_single)
qed

lemma get_part_snoc: "get_part (xs @ [c]) 0 = (if xs = [] then c else get_part xs 0)"
  by (cases xs) (simp_all add: get_part_def)

lemma get_part_map: "get_part (map (\<lambda>x. x - c) xs) 0 = (if xs = [] then 0 else get_part xs 0 - c)"
  by (cases xs) (simp_all add: get_part_def)

lemma path_of_snoc:
  "path_of (xs @ [c]) = replicate (nat c) 0 @ [1] @ path_of (map (\<lambda>x. x - c) xs)"
proof (induction xs)
  case Nil
  then show ?case by (simp add: get_part_def)
next
  case (Cons x xs)
  have "x - get_part (xs @ [c]) 0 = (x - c) - get_part (map (\<lambda>x. x - c) xs) 0"
    by (simp add: get_part_snoc get_part_map)
  then show ?case using Cons.IH by simp
qed

lemma to_dyck_word_loop_path: "to_dyck_word_loop cp w = w @ path_of cp"
proof (induction "length cp" arbitrary: cp w)
  case 0
  then show ?case by (simp add: to_dyck_word_loop_Nil)
next
  case (Suc k)
  then obtain xs c where cp: "cp = xs @ [c]"
    by (cases cp rule: rev_cases) simp_all
  have k: "k = length (map (\<lambda>x. x - c) xs)" using Suc.hyps(2) cp by simp
  show ?case
    unfolding cp to_dyck_word_loop_snoc Suc.hyps(1) [OF k] path_of_snoc by simp
qed

lemma to_dyck_word_path:
  "to_dyck_word mu (Some n) =
   replicate (nat (n - int (length mu))) 1 @ path_of mu @ replicate (nat (n - get_part mu 0)) 0"
proof (cases "mu = []")
  case True
  then show ?thesis by (simp add: to_dyck_word_def get_part_def)
next
  case False
  then show ?thesis
    by (simp add: to_dyck_word_def to_dyck_word_loop_path partition_hd)
qed

lemma sum_list_path_of: "is_partition p \<Longrightarrow> sum_list (path_of p) = int (length p)"
proof (induction p)
  case Nil
  then show ?case by simp
next
  case (Cons x xs)
  then show ?case by (simp add: is_partition_Cons sum_list_replicate)
qed

lemma binary_path_of: "binary (path_of p)"
  by (induction p) (auto simp: binary_def list_all_iff)

lemma path_of_last: "path_of p = [] \<or> last (path_of p) = 1"
  by (cases p) simp_all

lemma path_of_hd: "is_partition p \<Longrightarrow> p \<noteq> [] \<Longrightarrow> \<exists>rest. path_of p = 0 # rest"
proof (induction p)
  case Nil
  then show ?case by simp
next
  case (Cons x xs)
  from Cons.prems have xs: "is_partition xs" and x: "0 < x" by (simp_all add: is_partition_Cons)
  show ?case
  proof (cases "xs = []")
    case True
    then have e: "path_of (x # xs) = replicate (nat x) 0 @ [1]" by (simp add: get_part_def)
    obtain m where m: "nat x = Suc m" using x by (cases "nat x") simp_all
    show ?thesis unfolding e m by simp
  next
    case False
    from Cons.IH [OF xs False] show ?thesis by auto
  qed
qed

lemma zero_positions_Nil: "zero_positions [] = []"
  by (simp add: zero_positions_def)

lemma length_zero_positions_zeros: "length (zero_positions (replicate x 0)) = x"
proof (induction x)
  case 0
  then show ?case by (simp add: zero_positions_Nil)
next
  case (Suc x)
  have "replicate (Suc x) 0 = replicate x (0::int) @ [0]" by (simp add: replicate_append_same)
  then show ?case using Suc by (simp only: zero_positions_snoc) simp
qed

lemma length_zero_positions_prefix:
  "length (zero_positions (replicate x 0 @ u)) = x + length (zero_positions u)"
proof (induction u rule: rev_induct)
  case Nil
  then show ?case by (simp add: length_zero_positions_zeros zero_positions_Nil)
next
  case (snoc c u)
  have "zero_positions (replicate x 0 @ u @ [c]) =
        zero_positions (replicate x 0 @ u) @ (if c = 0 then [length (replicate x 0 @ u)] else [])"
    using zero_positions_snoc [of "replicate x 0 @ u" c] by simp
  then show ?case using snoc by (simp add: zero_positions_snoc)
qed

lemma parts_of_Nil: "parts_of [] = []"
  by (simp add: parts_of_def zero_positions_Nil)

lemma parts_of_zeros: "parts_of (replicate x 0) = replicate x 0"
proof (induction x)
  case 0
  then show ?case by (simp add: parts_of_Nil)
next
  case (Suc x)
  have "parts_of (replicate x 0 @ [0]) =
        (int (length (replicate x (0::int))) - int (length (zero_positions (replicate x 0)))) #
        parts_of (replicate x 0)"
    by (rule parts_of_snoc_zero)
  then have "parts_of (replicate x 0 @ [0]) = 0 # replicate x 0"
    using Suc by (simp add: length_zero_positions_zeros)
  then show ?case by (simp add: replicate_append_same)
qed

lemma parts_of_zeros_prefix: "parts_of (replicate x 0 @ u) = parts_of u @ replicate x 0"
proof (induction u rule: rev_induct)
  case Nil
  then show ?case by (simp add: parts_of_zeros parts_of_Nil)
next
  case (snoc c u)
  show ?case
  proof (cases "c = 0")
    case False
    have "parts_of ((replicate x 0 @ u) @ [c]) = parts_of (replicate x 0 @ u)"
      using False by (rule parts_of_snoc_nonzero)
    moreover have "parts_of (u @ [c]) = parts_of u"
      using False by (rule parts_of_snoc_nonzero)
    ultimately show ?thesis using snoc by simp
  next
    case True
    have "parts_of ((replicate x 0 @ u) @ [0]) =
          (int (length (replicate x (0::int) @ u)) -
           int (length (zero_positions (replicate x 0 @ u)))) # parts_of (replicate x 0 @ u)"
      by (rule parts_of_snoc_zero)
    moreover have "parts_of (u @ [0]) =
          (int (length u) - int (length (zero_positions u))) # parts_of u"
      by (rule parts_of_snoc_zero)
    ultimately show ?thesis
      using snoc True by (simp add: length_zero_positions_prefix)
  qed
qed

text \<open>
  Every binary sequence that does not start with a symbol 0 is, up to symbols 1 at its
  end, the sequence of the partition read from it.
\<close>

lemma codec_onto:
  "binary u \<Longrightarrow> u = [] \<or> hd u = 1 \<Longrightarrow>
   is_partition (parts_of u) \<and> get_part (parts_of u) 0 \<le> sum_list u \<and>
   u = zero_one_sequence (parts_of u) @ replicate (nat (sum_list u - get_part (parts_of u) 0)) 1"
proof (induction u rule: rev_induct)
  case Nil
  then show ?case
    by (simp add: parts_of_Nil is_partition_def get_part_def zero_one_sequence_Nil)
next
  case (snoc c u)
  from snoc.prems(1) have bu: "binary u" and c: "c = 0 \<or> c = 1"
    by (simp_all add: binary_def)
  from snoc.prems(2) have hu: "u = [] \<or> hd u = 1" by (cases u) simp_all
  note IH = snoc.IH [OF bu hu]
  let ?mu = "parts_of u"
  let ?g = "get_part ?mu 0"
  from IH have part: "is_partition ?mu" and le: "?g \<le> sum_list u"
    and u: "u = zero_one_sequence ?mu @ replicate (nat (sum_list u - ?g)) 1"
    by simp_all
  show ?case
  proof (cases "c = 0")
    case False
    with c have c1: "c = 1" by simp
    have p: "parts_of (u @ [c]) = ?mu" using False by (rule parts_of_snoc_nonzero)
    have "nat (sum_list u + 1 - ?g) = Suc (nat (sum_list u - ?g))" using le by simp
    then have "zero_one_sequence ?mu @ replicate (nat (sum_list (u @ [c]) - ?g)) 1 =
               (zero_one_sequence ?mu @ replicate (nat (sum_list u - ?g)) 1) @ [1]"
      unfolding c1 by (simp add: replicate_append_same)
    also have "\<dots> = u @ [c]" using u c1 by simp
    finally show ?thesis
      unfolding p using part le c1 by simp
  next
    case True
    have une: "u \<noteq> []" using snoc.prems(2) True by auto
    then have "hd u = 1" using hu by simp
    then have "1 \<in> set u" using une by (metis hd_in_set)
    then have pos: "0 < sum_list u"
      using bu by (induction u) (auto simp: binary_def dest: binary_sum_ge [unfolded binary_def])
    have p: "parts_of (u @ [c]) = sum_list u # ?mu"
      unfolding True using parts_of_snoc_zero [of u] length_minus_zeros [OF bu] by simp
    have part': "is_partition (sum_list u # ?mu)"
      using part le pos by (simp add: is_partition_Cons)
    have "zero_one_sequence (sum_list u # ?mu) =
          zero_one_sequence ?mu @ replicate (nat (sum_list u - ?g)) 1 @ [0]"
      by (rule zero_one_sequence_Cons [OF part'])
    also have "\<dots> = u @ [0]" using u by simp
    finally have z: "zero_one_sequence (sum_list u # ?mu) = u @ [0]" .
    show ?thesis
      unfolding p using part' z True by (simp add: get_part_def)
  qed
qed

lemma leading_zeros:
  "binary t \<Longrightarrow> \<exists>x u. t = replicate x 0 @ u \<and> (u = [] \<or> hd u = 1) \<and> binary u"
proof (induction t)
  case Nil
  then show ?case by simp
next
  case (Cons c t)
  then have c: "c = 0 \<or> c = 1" and bt: "binary t" by (simp_all add: binary_def)
  show ?case
  proof (cases "c = 0")
    case True
    from Cons.IH [OF bt] obtain x u where "t = replicate x 0 @ u" "u = [] \<or> hd u = 1" "binary u"
      by blast
    then have "c # t = replicate (Suc x) 0 @ u \<and> (u = [] \<or> hd u = 1) \<and> binary u"
      using True by simp
    then show ?thesis by blast
  next
    case False
    with c have "c # t = replicate 0 0 @ (c # t) \<and> (c # t = [] \<or> hd (c # t) = 1)"
      by simp
    with Cons.prems show ?thesis by blast
  qed
qed

lemma strip_zeros_partition_zeros:
  "is_partition p \<Longrightarrow> strip_zeros (p @ replicate x 0) = p"
  by (simp add: strip_zeros_append_zeros strip_zeros_partition)

text \<open>
  A binary wire is, between symbols 1 at its front and symbols 0 at its end, the path
  of the partition read from it.
\<close>

lemma wire_decode:
  assumes "binary W"
  defines "mu \<equiv> from_zero_one (invert_zero_one W)"
  shows "is_partition mu \<and> (\<exists>x y. W = replicate x 1 @ path_of mu @ replicate y 0)"
proof -
  have "binary (invert_zero_one W)" using assms(1) by (rule binary_invert_zero_one)
  from leading_zeros [OF this] obtain x u where
    t: "invert_zero_one W = replicate x 0 @ u" and hu: "u = [] \<or> hd u = 1" and bu: "binary u"
    by blast
  from codec_onto [OF bu hu] have part: "is_partition (parts_of u)"
    and u: "u = zero_one_sequence (parts_of u) @
              replicate (nat (sum_list u - get_part (parts_of u) 0)) 1"
    by simp_all
  have "mu = strip_zeros (parts_of (replicate x 0 @ u))"
    unfolding mu_def t by (rule from_zero_one_parts_of)
  also have "\<dots> = parts_of u"
    unfolding parts_of_zeros_prefix by (rule strip_zeros_partition_zeros [OF part])
  finally have mu: "mu = parts_of u" .
  have "W = invert_zero_one (invert_zero_one W)" by (simp add: invert_invert)
  also have "\<dots> = invert_zero_one (replicate x 0 @ zero_one_sequence mu @
              replicate (nat (sum_list u - get_part mu 0)) 1)"
    unfolding t mu using u by simp
  also have "\<dots> = replicate x 1 @ path_of mu @ replicate (nat (sum_list u - get_part mu 0)) 0"
    using part unfolding mu
    by (simp add: invert_append invert_replicate path_of_partition)
  finally show ?thesis using part mu by blast
qed

section \<open>The stepping rule in both directions\<close>

lemma spec_wire_wire_of: "binary seq \<Longrightarrow> spec_wire r b w seq k = wire_of r b w seq k"
proof (induction seq arbitrary: w)
  case Nil
  then show ?case by simp
next
  case (Cons c seq)
  from Cons.prems have c: "c = 0 \<or> c = 1" and bin: "binary seq"
    by (simp_all add: binary_def)
  have step: "stepping_rule r b w c = (w + b * (1 - c) - c) mod r"
    using c by (auto simp: stepping_rule_def)
  show ?case by (simp add: step Cons.IH [OF bin])
qed

lemma ones_append: "ones (xs @ ys) = ones xs + ones ys"
  by (induction xs) (simp_all add: ones_def)

lemma total_north_steps_ones:
  "list_all binary A \<Longrightarrow> total_north_steps A = ones (concat A)"
proof (induction A)
  case Nil
  then show ?case by (simp add: total_north_steps_def ones_def)
next
  case (Cons x A)
  from Cons.prems have x: "binary x" and A: "list_all binary A" by simp_all
  show ?case
    using Cons.IH [OF A] binary_ones [OF x]
    by (simp add: total_north_steps_def ones_append)
qed

text \<open>
  Claim C3. The stepping rule is the same in both directions. For \<open>r \<ge> 1\<close> the loop
  of \<open>G_abacus\<close> puts on every wire exactly what the design's rule puts there: the
  walk over the boundary path starts at the wire whose index is the number of
  symbols 1 modulo \<open>r\<close> and moves by \<open>stepping_rule\<close> after each symbol. For an abacus
  of \<open>r\<close> binary wires and \<open>gcd r b = 1\<close> the loop of \<open>from_G_abacus\<close>, started as
  \<open>from_G_abacus\<close> starts it, returns a binary path with as many symbols 1 as the
  abacus, from which \<open>from_G_abacus\<close> decodes its result, and the same walk over that
  path (same start, same \<open>stepping_rule\<close>) reads every wire of the abacus, up to
  zeros at the end of the wire.
\<close>
theorem stepping_rule_shared:
  assumes "0 < r"
  shows "(\<exists>abacus. G_abacus p r b = Inr abacus \<and> length abacus = nat r \<and>
            (\<forall>k. 0 \<le> k \<longrightarrow> k < r \<longrightarrow>
               abacus ! nat k =
               spec_wire r b (ones (invert_zero_one (zero_one_sequence p)) mod r)
                 (invert_zero_one (zero_one_sequence p)) k)) \<and>
         (gcd r b = 1 \<longrightarrow> length A = nat r \<longrightarrow> list_all binary A \<longrightarrow>
          (\<exists>path_seq.
             from_G_abacus_loop r b (ones (concat A)) A (ones (concat A) mod r) 0 [] =
               Some (Inr path_seq) \<and>
             from_G_abacus A (Some r) b = Some (Inr (from_zero_one (invert_zero_one path_seq))) \<and>
             binary path_seq \<and> (path_seq = [] \<or> last path_seq = 1) \<and>
             ones path_seq = ones (concat A) \<and>
             (\<forall>k. 0 \<le> k \<longrightarrow> k < r \<longrightarrow>
                strip_zeros (spec_wire r b (ones path_seq mod r) path_seq k) =
                strip_zeros (A ! nat k))))"
proof (rule conjI)
  let ?seq = "invert_zero_one (zero_one_sequence p)"
  let ?w = "sum_list ?seq mod r"
  let ?A = "distribute r b (replicate (nat r) []) ?w ?seq"
  have w: "0 \<le> ?w" "?w < r" using assms by simp_all
  have bin: "binary ?seq"
    by (intro binary_invert_zero_one binary_zero_one_sequence)
  have s: "sum_list ?seq = ones ?seq" by (rule binary_ones [OF bin])
  have A: "G_abacus p r b = Inr ?A" by (rule G_abacus_distribute [OF assms])
  have len: "length ?A = nat r" by simp
  have wires: "?A ! nat k = spec_wire r b (ones ?seq mod r) ?seq k"
    if "0 \<le> k" "k < r" for k
    using distribute_wire_of [OF assms w that, of b ?seq]
    by (simp only: spec_wire_wire_of [OF bin] s)
  show "\<exists>abacus. G_abacus p r b = Inr abacus \<and> length abacus = nat r \<and>
          (\<forall>k. 0 \<le> k \<longrightarrow> k < r \<longrightarrow>
             abacus ! nat k = spec_wire r b (ones ?seq mod r) ?seq k)"
    using A len wires by blast
next
  show "gcd r b = 1 \<longrightarrow> length A = nat r \<longrightarrow> list_all binary A \<longrightarrow>
          (\<exists>path_seq.
             from_G_abacus_loop r b (ones (concat A)) A (ones (concat A) mod r) 0 [] =
               Some (Inr path_seq) \<and>
             from_G_abacus A (Some r) b = Some (Inr (from_zero_one (invert_zero_one path_seq))) \<and>
             binary path_seq \<and> (path_seq = [] \<or> last path_seq = 1) \<and>
             ones path_seq = ones (concat A) \<and>
             (\<forall>k. 0 \<le> k \<longrightarrow> k < r \<longrightarrow>
                strip_zeros (spec_wire r b (ones path_seq mod r) path_seq k) =
                strip_zeros (A ! nat k)))"
  proof (intro impI)
    assume g: "gcd r b = 1" and len: "length A = nat r" and bin: "list_all binary A"
    let ?n = "ones (concat A)"
    have n: "total_north_steps A = ?n" by (rule total_north_steps_ones [OF bin])
    have w: "0 \<le> ?n mod r" "?n mod r < r" using assms by simp_all
    have "0 + total_north_steps A = ?n" by (simp add: n)
    from from_G_abacus_loop_spec [OF assms g len bin w this, of "[]"]
    obtain seq where loop: "from_G_abacus_loop r b ?n A (?n mod r) 0 [] = Some (Inr seq)"
      and total: "sum_list seq = ?n" and rep: "represents r b (?n mod r) A seq"
      by auto
    from rep have bs: "binary seq" and ls: "seq = [] \<or> last seq = 1"
      and ws: "\<And>k. 0 \<le> k \<Longrightarrow> k < r \<Longrightarrow>
                 strip_zeros (wire_of r b (?n mod r) seq k) = strip_zeros (A ! nat k)"
      by (simp_all add: represents_def)
    have os: "ones seq = ?n" using total binary_ones [OF bs] by simp
    have rep': "represents r b (total_north_steps A mod r) A seq" using rep by (simp only: n)
    have res: "from_G_abacus A (Some r) b = Some (Inr (from_zero_one (invert_zero_one seq)))"
      by (rule from_G_abacus_represents [OF assms g len bin rep'])
    have ws': "strip_zeros (spec_wire r b (ones seq mod r) seq k) = strip_zeros (A ! nat k)"
      if "0 \<le> k" "k < r" for k
      using ws [OF that] by (simp only: spec_wire_wire_of [OF bs] os)
    show "\<exists>path_seq.
             from_G_abacus_loop r b ?n A (?n mod r) 0 [] = Some (Inr path_seq) \<and>
             from_G_abacus A (Some r) b = Some (Inr (from_zero_one (invert_zero_one path_seq))) \<and>
             binary path_seq \<and> (path_seq = [] \<or> last path_seq = 1) \<and>
             ones path_seq = ?n \<and>
             (\<forall>k. 0 \<le> k \<longrightarrow> k < r \<longrightarrow>
                strip_zeros (spec_wire r b (ones path_seq mod r) path_seq k) =
                strip_zeros (A ! nat k))"
      using loop res bs ls os ws' by blast
  qed
qed

theorem stepping_rule_shared_witness:
  "(0::int) < 2 \<and> gcd (2::int) 1 = 1 \<and> length [[0, 0, 1], [1, 0::int]] = nat 2 \<and>
   list_all binary [[0, 0, 1], [1, 0]] \<and>
   (\<exists>abacus. G_abacus [3, 1] 2 1 = Inr abacus \<and> length abacus = nat 2 \<and>
      (\<forall>k. 0 \<le> k \<longrightarrow> k < 2 \<longrightarrow>
         abacus ! nat k =
         spec_wire 2 1 (ones (invert_zero_one (zero_one_sequence [3, 1])) mod 2)
           (invert_zero_one (zero_one_sequence [3, 1])) k)) \<and>
   (\<exists>path_seq.
      from_G_abacus_loop 2 1 (ones (concat [[0, 0, 1], [1, 0]])) [[0, 0, 1], [1, 0]]
        (ones (concat [[0, 0, 1], [1, 0]]) mod 2) 0 [] = Some (Inr path_seq) \<and>
      from_G_abacus [[0, 0, 1], [1, 0]] (Some 2) 1 =
        Some (Inr (from_zero_one (invert_zero_one path_seq))) \<and>
      binary path_seq \<and> (path_seq = [] \<or> last path_seq = 1) \<and>
      ones path_seq = ones (concat [[0, 0, 1], [1, 0]]) \<and>
      (\<forall>k. 0 \<le> k \<longrightarrow> k < 2 \<longrightarrow>
         strip_zeros (spec_wire 2 1 (ones path_seq mod 2) path_seq k) =
         strip_zeros ([[0, 0, 1], [1, 0]] ! nat k)))"
proof -
  have h1: "(0::int) < 2" by simp
  have h2: "gcd (2::int) 1 = 1" by simp
  have h3: "length [[0, 0, 1], [1, 0::int]] = nat 2" by simp
  have h4: "list_all binary [[0, 0, 1], [1, 0]]" by (simp add: binary_def)
  note t = stepping_rule_shared [OF h1, of "[3, 1]" 1 "[[0, 0, 1], [1, 0]]"]
  note a = t [THEN conjunct1]
  note c = t [THEN conjunct2, THEN mp, OF h2, THEN mp, OF h3, THEN mp, OF h4]
  show ?thesis
    by (intro conjI h1 h2 h3 h4 a c)
qed

section \<open>Hooks and wires: the core test read on the abacus\<close>

lemma conjugate_Cons:
  "conjugate (x # xs) =
   map (\<lambda>v. v + 1) (conjugate xs) @ replicate (nat (x - get_part xs 0)) 1"
proof (cases "xs = []")
  case True
  then show ?thesis by (simp add: conjugate_def get_part_def)
next
  case False
  let ?l = "length xs"
  let ?f = "\<lambda>i. replicate (nat ((x # xs) ! (i - 1) - (x # xs) ! i)) (int i)"
  let ?g = "\<lambda>i. replicate (nat (xs ! (i - 1) - xs ! i)) (int i)"
  have "[1 ..< Suc ?l] = 1 # [Suc 1 ..< Suc ?l]"
    by (rule upt_conv_Cons) (use False in simp)
  also have "[Suc 1 ..< Suc ?l] = map Suc [1 ..< ?l]"
    by (simp only: map_Suc_upt)
  finally have upt: "[1 ..< Suc ?l] = 1 # map Suc [1 ..< ?l]" .
  have fS: "?f (Suc i) = map (\<lambda>v. v + 1) (?g i)" if "i \<in> set (rev [1 ..< ?l])" for i
  proof -
    from that have "0 < i" by simp
    then obtain i' where i: "i = Suc i'" by (cases i) simp_all
    show ?thesis unfolding i by simp
  qed
  have "concat (map ?f (rev [1 ..< Suc ?l])) =
        concat (map (\<lambda>i. ?f (Suc i)) (rev [1 ..< ?l])) @ ?f 1"
    unfolding upt by (simp add: rev_map comp_def)
  also have "map (\<lambda>i. ?f (Suc i)) (rev [1 ..< ?l]) =
             map (\<lambda>i. map (\<lambda>v. v + 1) (?g i)) (rev [1 ..< ?l])"
    by (rule map_cong [OF refl]) (rule fS)
  also have "concat \<dots> = map (\<lambda>v. v + 1) (concat (map ?g (rev [1 ..< ?l])))"
    by (simp add: map_concat comp_def)
  finally have c: "concat (map ?f (rev [1 ..< Suc ?l])) =
      map (\<lambda>v. v + 1) (concat (map ?g (rev [1 ..< ?l]))) @ ?f 1" .
  have f1: "?f 1 = replicate (nat (x - get_part xs 0)) 1"
    using False by (simp add: get_part_def)
  have "conjugate (x # xs) =
        replicate (nat (last xs)) (int (Suc ?l)) @ concat (map ?f (rev [1 ..< Suc ?l]))"
    using False by (simp add: conjugate_def)
  also have "\<dots> = map (\<lambda>v. v + 1) (conjugate xs) @ replicate (nat (x - get_part xs 0)) 1"
    unfolding c f1 using False by (simp add: conjugate_def)
  finally show ?thesis .
qed

lemma length_conjugate: "is_partition p \<Longrightarrow> length (conjugate p) = nat (get_part p 0)"
proof (induction p)
  case Nil
  then show ?case by (simp add: conjugate_def get_part_def)
next
  case (Cons x xs)
  from Cons.prems have xs: "is_partition xs" and x: "get_part xs 0 \<le> x"
    by (simp_all add: is_partition_Cons)
  show ?case
    using Cons.IH [OF xs] x get_part_nonneg [OF xs]
    by (simp add: conjugate_Cons get_part_def)
qed

lemma zero_wires_append:
  "zero_wires r b w (s @ t) = zero_wires r b w s @ zero_wires r b (walk r b w s) t"
  by (induction s arbitrary: w) simp_all

lemma zero_wires_zeros:
  "0 \<le> w \<Longrightarrow> w < r \<Longrightarrow>
   zero_wires r b w (replicate m 0) = map (\<lambda>i. (w + b * int i) mod r) [0 ..< m]"
proof (induction m arbitrary: w)
  case 0
  then show ?case by simp
next
  case (Suc m)
  have nxt: "0 \<le> (w + b) mod r" "(w + b) mod r < r" using Suc.prems by simp_all
  have "map (\<lambda>i. (w + b * int i) mod r) [0 ..< Suc m] =
        (w mod r) # map (\<lambda>i. (w + b * int (Suc i)) mod r) [0 ..< m]"
    by (simp only: map_upt_Suc) simp
  also have "map (\<lambda>i. (w + b * int (Suc i)) mod r) [0 ..< m] =
             map (\<lambda>i. ((w + b) mod r + b * int i) mod r) [0 ..< m]"
    by (rule map_cong [OF refl]) (simp add: mod_simps algebra_simps)
  finally show ?case
    using Suc.IH [OF nxt] Suc.prems by simp
qed

lemma walk_zeros:
  "0 \<le> w \<Longrightarrow> w < r \<Longrightarrow> walk r b w (replicate m 0) = (w + b * int m) mod r"
proof (induction m arbitrary: w)
  case 0
  then show ?case by simp
next
  case (Suc m)
  have nxt: "0 \<le> (w + b) mod r" "(w + b) mod r < r" using Suc.prems by simp_all
  show ?case
    using Suc.IH [OF nxt] by (simp add: mod_simps algebra_simps)
qed

lemma zero_in_wire: "0 \<in> set (wire_of r b w s k) \<longleftrightarrow> k \<in> set (zero_wires r b w s)"
  by (induction s arbitrary: w) auto

lemma is_G_core_bad_cell:
  assumes "r \<noteq> 0"
  shows "is_G_core p r b = Inr (\<not> bad_cell p r b)"
proof -
  have "list_ex (\<lambda>row. list_ex (\<lambda>cell. cell mod r = 0) row) (upper_hook_lengths p (- b)) \<longleftrightarrow>
        (\<exists>i<length p. \<exists>j<nat (p ! i). (leg p i j - b * (arm p i j + 1)) mod r = 0)"
    by (simp only: upper_hook_lengths_def Let_def list_ex_map_upt hook_entry)
  also have "\<dots> \<longleftrightarrow> bad_cell p r b"
    by (simp only: ex_cell bad_cell_def)
  finally have "is_G_core p r b =
      (if r = 0 \<and> concat (upper_hook_lengths p (- b)) \<noteq> [] then Inl ZeroDivisionError
       else Inr (\<not> bad_cell p r b))"
    by (simp only: is_G_core_def Let_def)
  then show ?thesis
    using assms by simp
qed

lemma one_notin_wire_zeros: "1 \<notin> set (wire_of r b w (replicate m 0) k)"
  by (induction m arbitrary: w) simp_all

lemma conflict_zeros: "\<not> conflict r b w (replicate m 0)"
  by (induction m arbitrary: w) (simp_all add: one_notin_wire_zeros)

lemma conflict_append:
  "conflict r b w (s @ t) \<longleftrightarrow>
   conflict r b w s \<or> conflict r b (walk r b w s) t \<or>
   (\<exists>k. k \<in> set (zero_wires r b w s) \<and> 1 \<in> set (wire_of r b (walk r b w s) t k))"
proof (induction s arbitrary: w)
  case Nil
  then show ?case by simp
next
  case (Cons c s)
  let ?w = "(w + b * (1 - c) - c) mod r"
  show ?case
    unfolding append_Cons conflict.simps zero_wires.simps walk.simps Cons.IH [of ?w]
      wire_of_append
    by auto
qed

lemma conflict_snoc_one:
  "conflict r b w (s @ [1]) \<longleftrightarrow> conflict r b w s \<or> walk r b w s \<in> set (zero_wires r b w s)"
  unfolding conflict_append by auto

lemma conflict_append_zeros:
  "conflict r b w (s @ replicate m 0) \<longleftrightarrow> conflict r b w s"
  unfolding conflict_append by (simp add: conflict_zeros one_notin_wire_zeros)

lemma partition_nth_le:
  "is_partition p \<Longrightarrow> i < length p \<Longrightarrow> p ! i \<le> get_part p 0"
proof (induction p arbitrary: i)
  case Nil
  then show ?case by simp
next
  case (Cons x xs)
  from Cons.prems have xs: "is_partition xs" and x: "get_part xs 0 \<le> x"
    by (simp_all add: is_partition_Cons)
  show ?case
  proof (cases i)
    case 0
    then show ?thesis by (simp add: get_part_def)
  next
    case (Suc i')
    with Cons.prems have "i' < length xs" by simp
    from Cons.IH [OF xs this] x show ?thesis
      using Suc by (simp add: get_part_def)
  qed
qed

lemma zero_wires_path_of:
  assumes r: "0 < r"
  shows "is_partition p \<Longrightarrow>
         zero_wires r b ((int (length p) + d) mod r) (path_of p) =
           map (\<lambda>j. (b * int j + conjugate p ! j + d) mod r) [0 ..< nat (get_part p 0)] \<and>
         walk r b ((int (length p) + d) mod r) (path_of p) = (b * get_part p 0 + d) mod r"
proof (induction p arbitrary: d)
  case Nil
  show ?case by (simp add: get_part_def)
next
  case (Cons x xs)
  from Cons.prems have xs: "is_partition xs" and xa: "get_part xs 0 \<le> x" and x0: "0 < x"
    by (simp_all add: is_partition_Cons)
  define a where "a = get_part xs 0"
  define m where "m = nat (x - a)"
  define S where "S = path_of xs"
  define w0 where "w0 = (int (length (x # xs)) + d) mod r"
  define w1 where "w1 = (b * a + (d + 1)) mod r"
  have a0: "0 \<le> a" unfolding a_def by (rule get_part_nonneg [OF xs])
  have m: "int m = x - a" using xa by (simp add: m_def a_def)
  have natx: "nat x = nat a + m" using a0 xa by (simp add: m_def a_def)
  have w0': "w0 = (int (length xs) + (d + 1)) mod r" by (simp add: w0_def algebra_simps)
  have w1r: "0 \<le> w1" "w1 < r" using r by (simp_all add: w1_def)
  from Cons.IH [OF xs, of "d + 1"]
  have zw: "zero_wires r b w0 S =
            map (\<lambda>j. (b * int j + conjugate xs ! j + (d + 1)) mod r) [0 ..< nat a]"
    and wk: "walk r b w0 S = w1"
    by (simp_all only: w0' S_def a_def w1_def)
  have lc: "length (conjugate xs) = nat a"
    unfolding a_def by (rule length_conjugate [OF xs])
  have cj: "conjugate (x # xs) = map (\<lambda>v. v + 1) (conjugate xs) @ replicate m 1"
    by (simp only: conjugate_Cons m_def a_def)
  have path: "path_of (x # xs) = S @ replicate m 0 @ [1]"
    by (simp add: S_def m_def a_def)
  have wz: "walk r b w1 (replicate m 0) = (w1 + b * int m) mod r"
    by (rule walk_zeros [OF w1r])
  have zz: "zero_wires r b w1 (replicate m 0) = map (\<lambda>i. (w1 + b * int i) mod r) [0 ..< m]"
    by (rule zero_wires_zeros [OF w1r])
  have part1: "map (\<lambda>j. (b * int j + conjugate (x # xs) ! j + d) mod r) [0 ..< nat a] =
               map (\<lambda>j. (b * int j + conjugate xs ! j + (d + 1)) mod r) [0 ..< nat a]"
  proof (rule map_cong [OF refl])
    fix j assume "j \<in> set [0 ..< nat a]"
    then have j: "j < length (conjugate xs)" by (simp add: lc)
    have "conjugate (x # xs) ! j = conjugate xs ! j + 1"
      unfolding cj using j by (simp add: nth_append)
    then show "(b * int j + conjugate (x # xs) ! j + d) mod r =
               (b * int j + conjugate xs ! j + (d + 1)) mod r"
      by (simp add: algebra_simps)
  qed
  have part2: "map (\<lambda>j. (b * int j + conjugate (x # xs) ! j + d) mod r) [nat a ..< nat a + m] =
               map (\<lambda>i. (w1 + b * int i) mod r) [0 ..< m]"
  proof -
    have "[nat a ..< nat a + m] = map (\<lambda>i. i + nat a) [0 ..< m]"
      by (simp add: map_add_upt add.commute)
    moreover have "(b * int (i + nat a) + conjugate (x # xs) ! (i + nat a) + d) mod r =
                   (w1 + b * int i) mod r" if "i < m" for i
    proof -
      have "conjugate (x # xs) ! (i + nat a) = 1"
        unfolding cj using that by (simp add: nth_append lc)
      moreover have "int (i + nat a) = int i + a" using a0 by simp
      ultimately show ?thesis
        by (simp add: w1_def mod_simps algebra_simps)
    qed
    ultimately show ?thesis by (simp add: comp_def)
  qed
  have "zero_wires r b w0 (path_of (x # xs)) =
        zero_wires r b w0 S @ zero_wires r b w1 (replicate m 0)"
    unfolding path by (simp add: zero_wires_append wk)
  also have "\<dots> = map (\<lambda>j. (b * int j + conjugate (x # xs) ! j + d) mod r)
                     ([0 ..< nat a] @ [nat a ..< nat a + m])"
    unfolding map_append part1 part2 zw zz ..
  also have "[0 ..< nat a] @ [nat a ..< nat a + m] = [0 ..< nat x]"
    unfolding natx using upt_add_eq_append [of 0 "nat a" m] by simp
  finally have Z: "zero_wires r b w0 (path_of (x # xs)) =
      map (\<lambda>j. (b * int j + conjugate (x # xs) ! j + d) mod r) [0 ..< nat x]" .
  have "walk r b w0 (path_of (x # xs)) = ((w1 + b * int m) mod r - 1) mod r"
    unfolding path by (simp add: walk_append wk wz)
  also have "\<dots> = (w1 + (b * int m - 1)) mod r"
    by (simp add: mod_simps algebra_simps)
  also have "\<dots> = (b * a + (d + 1) + (b * int m - 1)) mod r"
    unfolding w1_def by (simp only: mod_add_left_eq)
  also have "b * a + (d + 1) + (b * int m - 1) = b * x + d"
    unfolding m by (simp add: algebra_simps)
  finally have W: "walk r b w0 (path_of (x # xs)) = (b * x + d) mod r" .
  have g: "get_part (x # xs) 0 = x" by (simp add: get_part_def)
  show ?case
    unfolding g using Z W by (simp only: w0_def simp_thms)
qed

lemma bad_cell_Nil: "\<not> bad_cell [] r b"
  by (simp add: bad_cell_def)

lemma bad_cell_Cons:
  assumes p: "is_partition (x # xs)"
  shows "bad_cell (x # xs) r b \<longleftrightarrow>
         bad_cell xs r b \<or>
         (\<exists>j<nat x. (conjugate (x # xs) ! j - 1 - b * (x - int j)) mod r = 0)"
proof -
  from p have xs: "is_partition xs" and xa: "get_part xs 0 \<le> x" and x0: "0 < x"
    by (simp_all add: is_partition_Cons)
  have lc: "length (conjugate xs) = nat (get_part xs 0)"
    by (rule length_conjugate [OF xs])
  have key: "leg (x # xs) (Suc i) j = leg xs i j \<and> arm (x # xs) (Suc i) j = arm xs i j"
    if i: "i < length xs" and j: "int j < xs ! i" for i j
  proof -
    have "xs ! i \<le> get_part xs 0" by (rule partition_nth_le [OF xs i])
    with j have "j < length (conjugate xs)" by (simp add: lc)
    then have "conjugate (x # xs) ! j = conjugate xs ! j + 1"
      by (simp add: conjugate_Cons nth_append)
    then show ?thesis by (simp add: leg_def arm_def)
  qed
  have top: "leg (x # xs) 0 j - b * (arm (x # xs) 0 j + 1) =
             conjugate (x # xs) ! j - 1 - b * (x - int j)" for j
    by (simp add: leg_def arm_def)
  show ?thesis
  proof
    assume "bad_cell (x # xs) r b"
    then obtain i j where i: "i < length (x # xs)" and j: "int j < (x # xs) ! i"
      and z: "(leg (x # xs) i j - b * (arm (x # xs) i j + 1)) mod r = 0"
      unfolding bad_cell_def by (elim exE conjE)
    show "bad_cell xs r b \<or>
          (\<exists>j<nat x. (conjugate (x # xs) ! j - 1 - b * (x - int j)) mod r = 0)"
    proof (cases i)
      case 0
      with j have jx: "j < nat x" by simp
      from z 0 have "(conjugate (x # xs) ! j - 1 - b * (x - int j)) mod r = 0"
        by (simp only: top)
      with jx have "\<exists>j<nat x. (conjugate (x # xs) ! j - 1 - b * (x - int j)) mod r = 0"
        by (intro exI [of _ j] conjI)
      then show ?thesis ..
    next
      case (Suc i')
      with i j have i': "i' < length xs" and j': "int j < xs ! i'" by simp_all
      from z have "(leg xs i' j - b * (arm xs i' j + 1)) mod r = 0"
        unfolding Suc by (simp only: key [OF i' j'])
      with i' j' have "bad_cell xs r b"
        unfolding bad_cell_def by (intro exI [of _ i'] exI [of _ j] conjI)
      then show ?thesis ..
    qed
  next
    assume "bad_cell xs r b \<or>
            (\<exists>j<nat x. (conjugate (x # xs) ! j - 1 - b * (x - int j)) mod r = 0)"
    then show "bad_cell (x # xs) r b"
    proof
      assume "bad_cell xs r b"
      then obtain i j where i: "i < length xs" and j: "int j < xs ! i"
        and z: "(leg xs i j - b * (arm xs i j + 1)) mod r = 0"
        unfolding bad_cell_def by (elim exE conjE)
      have "Suc i < length (x # xs)" using i by simp
      moreover have "int j < (x # xs) ! Suc i" using j by simp
      moreover have "(leg (x # xs) (Suc i) j - b * (arm (x # xs) (Suc i) j + 1)) mod r = 0"
        using z by (simp only: key [OF i j])
      ultimately show ?thesis
        unfolding bad_cell_def by (intro exI [of _ "Suc i"] exI [of _ j] conjI)
    next
      assume "\<exists>j<nat x. (conjugate (x # xs) ! j - 1 - b * (x - int j)) mod r = 0"
      then obtain j where j: "j < nat x"
        and z: "(conjugate (x # xs) ! j - 1 - b * (x - int j)) mod r = 0"
        by (elim exE conjE)
      have "0 < length (x # xs)" by simp
      moreover have "int j < (x # xs) ! 0" using j by simp
      moreover have "(leg (x # xs) 0 j - b * (arm (x # xs) 0 j + 1)) mod r = 0"
        using z by (simp only: top)
      ultimately show ?thesis
        unfolding bad_cell_def by (intro exI [of _ 0] exI [of _ j] conjI)
    qed
  qed
qed

lemma mod_eq_diff: "(A::int) mod r = B mod r \<longleftrightarrow> (A - B) mod r = 0"
  by (simp add: mod_eq_dvd_iff mod_eq_0_iff_dvd)

lemma bad_cell_conflict:
  assumes r: "0 < r"
  shows "is_partition p \<Longrightarrow>
         bad_cell p r b \<longleftrightarrow> conflict r b ((int (length p) + d) mod r) (path_of p)"
proof (induction p arbitrary: d)
  case Nil
  show ?case by (simp add: bad_cell_Nil)
next
  case (Cons x xs)
  from Cons.prems have xs: "is_partition xs" and xa: "get_part xs 0 \<le> x" and x0: "0 < x"
    by (simp_all add: is_partition_Cons)
  define a where "a = get_part xs 0"
  define m where "m = nat (x - a)"
  define S where "S = path_of xs"
  define w0 where "w0 = (int (length (x # xs)) + d) mod r"
  define w1 where "w1 = (b * a + (d + 1)) mod r"
  have m: "int m = x - a" using xa by (simp add: m_def a_def)
  have w0': "w0 = (int (length xs) + (d + 1)) mod r" by (simp add: w0_def algebra_simps)
  have w1r: "0 \<le> w1" "w1 < r" using r by (simp_all add: w1_def)
  have wk: "walk r b w0 S = w1"
    using zero_wires_path_of [OF r xs, of b "d + 1"]
    by (simp only: w0' S_def a_def w1_def)
  have IH: "bad_cell xs r b \<longleftrightarrow> conflict r b w0 S"
    using Cons.IH [OF xs, of "d + 1"] by (simp only: w0' S_def)
  have path: "path_of (x # xs) = (S @ replicate m 0) @ [1]"
    by (simp add: S_def m_def a_def)
  have g: "get_part (x # xs) 0 = x" by (simp add: get_part_def)
  have "zero_wires r b w0 (S @ replicate m 0) = zero_wires r b w0 (path_of (x # xs))"
    unfolding path by (simp add: zero_wires_append)
  also have "\<dots> = map (\<lambda>j. (b * int j + conjugate (x # xs) ! j + d) mod r) [0 ..< nat x]"
    using zero_wires_path_of [OF r Cons.prems, of b d] by (simp only: w0_def g)
  finally have Z: "zero_wires r b w0 (S @ replicate m 0) =
      map (\<lambda>j. (b * int j + conjugate (x # xs) ! j + d) mod r) [0 ..< nat x]" .
  have "walk r b w0 (S @ replicate m 0) = (w1 + b * int m) mod r"
    by (simp add: walk_append wk walk_zeros [OF w1r])
  also have "\<dots> = (b * a + (d + 1) + b * int m) mod r"
    unfolding w1_def by (simp only: mod_add_left_eq)
  also have "b * a + (d + 1) + b * int m = b * x + d + 1"
    unfolding m by (simp add: algebra_simps)
  finally have W: "walk r b w0 (S @ replicate m 0) = (b * x + d + 1) mod r" .
  have eq: "(b * int j + conjugate (x # xs) ! j + d) mod r = (b * x + d + 1) mod r \<longleftrightarrow>
            (conjugate (x # xs) ! j - 1 - b * (x - int j)) mod r = 0" for j
  proof -
    have "b * int j + conjugate (x # xs) ! j + d - (b * x + d + 1) =
          conjugate (x # xs) ! j - 1 - b * (x - int j)"
      by (simp add: algebra_simps)
    then show ?thesis by (simp only: mod_eq_diff)
  qed
  have "conflict r b w0 (path_of (x # xs)) \<longleftrightarrow>
        conflict r b w0 S \<or>
        (b * x + d + 1) mod r \<in>
          set (map (\<lambda>j. (b * int j + conjugate (x # xs) ! j + d) mod r) [0 ..< nat x])"
    unfolding path conflict_snoc_one conflict_append_zeros W Z ..
  also have "(b * x + d + 1) mod r \<in>
          set (map (\<lambda>j. (b * int j + conjugate (x # xs) ! j + d) mod r) [0 ..< nat x]) \<longleftrightarrow>
        (\<exists>j<nat x. (b * int j + conjugate (x # xs) ! j + d) mod r = (b * x + d + 1) mod r)"
    by (simp add: image_iff Bex_def eq_commute [of "(b * x + d + 1) mod r"])
  also have "\<dots> \<longleftrightarrow>
        (\<exists>j<nat x. (conjugate (x # xs) ! j - 1 - b * (x - int j)) mod r = 0)"
    by (simp only: eq)
  finally show ?case
    unfolding bad_cell_Cons [OF Cons.prems] IH w0_def by (rule sym)
qed

lemma nice_Nil: "nice []"
  by (simp add: nice_def strip_zeros_Nil)

lemma nice_Cons_one: "nice (1 # X) \<longleftrightarrow> nice X"
  by (simp add: nice_def strip_zeros_Cons)

lemma nice_no_ones: "binary X \<Longrightarrow> 1 \<notin> set X \<Longrightarrow> nice X"
proof -
  assume b: "binary X" and n: "1 \<notin> set X"
  have "\<forall>x\<in>set X. x = 0"
    using b n by (auto simp: binary_def list_all_iff)
  then have "strip_zeros X = []" by (simp only: strip_zeros_eq_Nil)
  then show ?thesis by (simp add: nice_def)
qed

lemma nice_Cons_zero: "binary X \<Longrightarrow> nice (0 # X) \<longleftrightarrow> 1 \<notin> set X"
proof
  assume b: "binary X" and n: "nice (0 # X)"
  have "strip_zeros X = []"
  proof (rule ccontr)
    assume "strip_zeros X \<noteq> []"
    then have "strip_zeros (0 # X) = 0 # strip_zeros X" by (simp add: strip_zeros_Cons)
    with n show False by (simp add: nice_def)
  qed
  then have "\<forall>x\<in>set X. x = 0" by (simp only: strip_zeros_eq_Nil)
  then show "1 \<notin> set X" by auto
next
  assume b: "binary X" and n: "1 \<notin> set X"
  have "binary (0 # X)" using b by (simp add: binary_def)
  moreover have "1 \<notin> set (0 # X)" using n by simp
  ultimately show "nice (0 # X)" by (rule nice_no_ones)
qed

lemma nice_conflict:
  assumes r: "0 < r"
  shows "binary s \<Longrightarrow> 0 \<le> w \<Longrightarrow> w < r \<Longrightarrow>
         (\<forall>k. 0 \<le> k \<longrightarrow> k < r \<longrightarrow> nice (wire_of r b w s k)) \<longleftrightarrow> \<not> conflict r b w s"
proof (induction s arbitrary: w)
  case Nil
  show ?case by (simp add: nice_Nil)
next
  case (Cons c s)
  from Cons.prems have c: "c = 0 \<or> c = 1" and bs: "binary s"
    by (simp_all add: binary_def)
  define w' where "w' = (w + b * (1 - c) - c) mod r"
  have w': "0 \<le> w'" "w' < r" using r by (simp_all add: w'_def)
  have IH: "(\<forall>k. 0 \<le> k \<longrightarrow> k < r \<longrightarrow> nice (wire_of r b w' s k)) \<longleftrightarrow> \<not> conflict r b w' s"
    by (rule Cons.IH [OF bs w'])
  have bw: "binary (wire_of r b w' s k)" for k by (rule binary_wire_of [OF bs])
  have wire: "wire_of r b w (c # s) k = (if w = k then [c] else []) @ wire_of r b w' s k" for k
    by (simp add: w'_def)
  have conf: "conflict r b w (c # s) \<longleftrightarrow>
              (c = 0 \<and> 1 \<in> set (wire_of r b w' s w)) \<or> conflict r b w' s"
    by (simp add: w'_def)
  from c show ?case
  proof
    assume c1: "c = 1"
    have e: "wire_of r b w (c # s) k = (if w = k then [1] else []) @ wire_of r b w' s k" for k
      unfolding wire using c1 by simp
    have "nice (wire_of r b w (c # s) k) \<longleftrightarrow> nice (wire_of r b w' s k)" for k
      unfolding e by (simp add: nice_Cons_one)
    then show ?thesis unfolding conf using IH c1 by simp
  next
    assume c0: "c = 0"
    have other: "nice (wire_of r b w (c # s) k) \<longleftrightarrow> nice (wire_of r b w' s k)" if "k \<noteq> w" for k
      unfolding wire using that by simp
    have e: "wire_of r b w (c # s) w = 0 # wire_of r b w' s w"
      unfolding wire using c0 by simp
    have here: "nice (wire_of r b w (c # s) w) \<longleftrightarrow> 1 \<notin> set (wire_of r b w' s w)"
      unfolding e by (rule nice_Cons_zero [OF bw])
    show ?thesis
    proof
      assume all: "\<forall>k. 0 \<le> k \<longrightarrow> k < r \<longrightarrow> nice (wire_of r b w (c # s) k)"
      from all [rule_format, OF Cons.prems(2,3)] have n1: "1 \<notin> set (wire_of r b w' s w)"
        unfolding here .
      have "nice (wire_of r b w' s k)" if "0 \<le> k" "k < r" for k
      proof (cases "k = w")
        case True
        show ?thesis unfolding True by (rule nice_no_ones [OF bw n1])
      next
        case False
        from all [rule_format, OF that] show ?thesis by (simp only: other [OF False])
      qed
      then have "\<not> conflict r b w' s" unfolding IH [symmetric] by simp
      with n1 show "\<not> conflict r b w (c # s)" unfolding conf by simp
    next
      assume nc: "\<not> conflict r b w (c # s)"
      then have n1: "1 \<notin> set (wire_of r b w' s w)" and nc': "\<not> conflict r b w' s"
        unfolding conf using c0 by simp_all
      from nc' have all': "nice (wire_of r b w' s k)" if "0 \<le> k" "k < r" for k
        unfolding IH [symmetric] using that by simp
      show "\<forall>k. 0 \<le> k \<longrightarrow> k < r \<longrightarrow> nice (wire_of r b w (c # s) k)"
      proof (intro allI impI)
        fix k assume k: "0 \<le> k" "k < r"
        show "nice (wire_of r b w (c # s) k)"
        proof (cases "k = w")
          case True
          show ?thesis unfolding True here by (rule n1)
        next
          case False
          show ?thesis unfolding other [OF False] by (rule all' [OF k])
        qed
      qed
    qed
  qed
qed

section \<open>The core and quotient round trip\<close>


lemma strip_zeros_last: "xs \<noteq> [] \<Longrightarrow> last xs \<noteq> 0 \<Longrightarrow> strip_zeros xs = xs"
proof -
  assume ne: "xs \<noteq> []" and l: "last xs \<noteq> 0"
  from ne obtain ys where xs: "xs = ys @ [last xs]"
    by (metis append_butlast_last_id)
  show ?thesis
    by (subst xs, subst (2) xs) (simp add: strip_zeros_def l)
qed

lemma binary_ones_list: "binary (replicate a 1)"
  by (simp add: binary_def list_all_iff)

lemma binary_zeros_list: "binary (replicate a 0)"
  by (simp add: binary_def list_all_iff)

lemma decode_prefix:
  assumes "is_partition p"
  shows "from_zero_one (invert_zero_one (replicate j 1 @ path_of p)) = p"
proof -
  have "invert_zero_one (path_of p) = zero_one_sequence p"
    by (simp only: path_of_partition [OF assms, symmetric] invert_invert)
  then have "invert_zero_one (replicate j 1 @ path_of p) = replicate j 0 @ zero_one_sequence p"
    by (simp add: invert_append invert_replicate)
  then show ?thesis
    by (simp only: from_zero_one_parts_of parts_of_zeros_prefix
        parts_of_zero_one_sequence [OF assms] strip_zeros_partition_zeros [OF assms])
qed

lemma decode_nice:
  assumes b: "binary U" and n: "nice U"
  shows "from_zero_one (invert_zero_one U) = []"
proof (rule ccontr)
  define mu where "mu = from_zero_one (invert_zero_one U)"
  assume "from_zero_one (invert_zero_one U) \<noteq> []"
  then have ne: "mu \<noteq> []" by (simp add: mu_def)
  from wire_decode [OF b] obtain x y where mu: "is_partition mu"
    and U: "U = replicate x 1 @ path_of mu @ replicate y 0"
    unfolding mu_def by blast
  from path_of_hd [OF mu ne] obtain rest where hd: "path_of mu = 0 # rest" by blast
  then have pne: "path_of mu \<noteq> []" by simp
  with path_of_last [of mu] have "last (path_of mu) = 1" by simp
  then have "strip_zeros (path_of mu) = path_of mu"
    using pne by (intro strip_zeros_last) simp_all
  then have "strip_zeros U = replicate x 1 @ path_of mu"
    unfolding U by (simp only: append_assoc [symmetric] strip_zeros_append_zeros)
      (simp only: append_assoc strip_zeros_append_ones)
  then have "0 \<in> set (strip_zeros U)" by (simp add: hd)
  with n show False by (auto simp: nice_def list_all_iff)
qed


lemma charged_quotient:
  assumes r: "0 < r" and lc: "int (length charges) = r" and sc: "sum_list charges = 0"
    and lq: "int (length q) = r" and pq: "list_all is_partition q"
  shows "\<exists>n. 0 \<le> n \<and>
           (\<forall>i<nat r. int (length (q ! i)) \<le> n \<and> get_part (q ! i) 0 \<le> n \<and>
                       charges ! i \<le> Max (set charges)) \<and>
           total_north_steps
             (map (\<lambda>i. replicate (nat (Max (set charges) - charges ! i)) 1 @
                        to_dyck_word (q ! i) (Some n)) [0 ..< nat r]) =
             r * (n + Max (set charges)) \<and>
           from_G_charges_and_quotient charges (Some q) r b =
             from_G_abacus
               (map (\<lambda>i. replicate (nat (Max (set charges) - charges ! i)) 1 @
                          to_dyck_word (q ! i) (Some n)) [0 ..< nat r]) (Some r) b"
proof -
  define Ls where "Ls = map (\<lambda>mu. int (length (to_dyck_word mu None))) q"
  define n where "n = Max (set Ls) div 2"
  define c_max where "c_max = Max (set charges)"
  define wire where
    "wire i = replicate (nat (c_max - charges ! i)) 1 @ to_dyck_word (q ! i) (Some n)" for i
  define A where "A = map wire [0 ..< nat r]"
  have ne: "q \<noteq> []" "charges \<noteq> []" using r lc lq by auto
  have lens: "length q = nat r" "length charges = nat r" using lc lq by simp_all
  have "map (\<lambda>i. replicate (nat (c_max - charges ! i)) 1 @
                  map (\<lambda>mu. to_dyck_word mu (Some n)) q ! i) [0 ..< nat r] = A"
    unfolding A_def wire_def by (rule map_cong [OF refl]) (simp add: lens)
  then have ca: "charged_abacus charges (Some q) r = Inr (n, c_max, A)"
    unfolding charged_abacus_def n_def c_max_def Ls_def
    using lq ne by (simp add: py_max_nonempty)
  have wire: "int (length (wire i)) = (c_max - charges ! i) + 2 * n \<and>
              sum_list (wire i) = (c_max - charges ! i) + n \<and>
              int (length (q ! i)) \<le> n \<and> get_part (q ! i) 0 \<le> n \<and> 0 \<le> n \<and>
              charges ! i \<le> c_max"
    if i: "i < nat r" for i
  proof -
    have mu: "is_partition (q ! i)" using pq i lens by (simp add: list_all_length)
    from to_dyck_word_half_length [OF mu] obtain n0 where
      n0: "int (length (to_dyck_word (q ! i) None)) = 2 * n0"
        "int (length (q ! i)) \<le> n0" "get_part (q ! i) 0 \<le> n0" "0 \<le> n0"
      by blast
    have "int (length (to_dyck_word (q ! i) None)) \<in> set Ls"
      using i lens unfolding Ls_def by (simp only: set_map) (rule imageI, simp)
    then have "2 * n0 \<le> Max (set Ls)" unfolding n0(1) [symmetric] by (intro Max_ge) simp_all
    then have le: "n0 \<le> n" unfolding n_def by (rule half_le_div)
    have b1: "int (length (q ! i)) \<le> n" and b2: "get_part (q ! i) 0 \<le> n" and b3: "0 \<le> n"
      using n0(2-4) le by simp_all
    note d = to_dyck_word_counts [OF mu b1 b2 b3]
    have "charges ! i \<in> set charges" using i lens by simp
    then have c: "charges ! i \<le> c_max" unfolding c_max_def by (intro Max_ge) simp_all
    show ?thesis
      unfolding wire_def using d c b1 b2 b3 by (simp add: sum_list_replicate)
  qed
  have n0: "0 \<le> n" using wire [of 0] r by simp
  have "int (sum_list (map length A)) = (\<Sum>i = 0 ..< nat r. int (length (wire i)))"
    unfolding A_def map_map comp_def by (rule sum_upt_int)
  also have "\<dots> = (\<Sum>i = 0 ..< length charges. (c_max - charges ! i) + 2 * n)"
    unfolding lens by (rule sum.cong) (simp_all add: wire)
  also have "\<dots> = r * (2 * n + c_max)"
    unfolding charged_sums(1) [OF sc] lc ..
  finally have total_len: "int (sum_list (map length A)) = r * (2 * n + c_max)" .
  have "total_north_steps A = (\<Sum>i = 0 ..< nat r. sum_list (wire i))"
    unfolding total_north_steps_def A_def map_map comp_def by (rule sum_upt)
  also have "\<dots> = (\<Sum>i = 0 ..< length charges. (c_max - charges ! i) + n)"
    unfolding lens by (rule sum.cong) (simp_all add: wire)
  also have "\<dots> = r * (n + c_max)"
    unfolding charged_sums(2) [OF sc] lc ..
  finally have total_ones: "total_north_steps A = r * (n + c_max)" .
  have res: "from_G_charges_and_quotient charges (Some q) r b = from_G_abacus A (Some r) b"
    using lc sc total_len total_ones by (simp add: from_G_charges_and_quotient_def ca)
  have "0 \<le> n \<and>
        (\<forall>i<nat r. int (length (q ! i)) \<le> n \<and> get_part (q ! i) 0 \<le> n \<and> charges ! i \<le> c_max) \<and>
        total_north_steps A = r * (n + c_max) \<and>
        from_G_charges_and_quotient charges (Some q) r b = from_G_abacus A (Some r) b"
    using n0 wire total_ones res by simp
  then show ?thesis
    unfolding A_def wire_def c_max_def by (rule exI [of _ n])
qed

lemma G_abacus_wires:
  assumes r: "0 < r" and p: "is_partition p"
  shows "\<exists>A. G_abacus p r b = Inr A \<and> length A = nat r \<and> list_all binary A \<and>
             total_north_steps A = int (length p) \<and>
             (\<forall>k. 0 \<le> k \<longrightarrow> k < r \<longrightarrow>
                  A ! nat k = wire_of r b (int (length p) mod r) (path_of p) k)"
proof -
  let ?seq = "invert_zero_one (zero_one_sequence p)"
  let ?E = "replicate (nat r) ([]::int list)"
  let ?w = "sum_list ?seq mod r"
  let ?A = "distribute r b ?E ?w ?seq"
  have seq: "?seq = path_of p" by (rule path_of_partition [OF p])
  have s: "sum_list ?seq = int (length p)" unfolding seq by (rule sum_list_path_of [OF p])
  have w: "0 \<le> ?w" "?w < r" using r by simp_all
  have A: "G_abacus p r b = Inr ?A" by (rule G_abacus_distribute [OF r])
  have bin: "binary ?seq" unfolding seq by (rule binary_path_of)
  have len: "length ?A = nat r" by simp
  have binA: "list_all binary ?A"
    by (rule binary_distribute [OF r _ w _ bin]) (simp_all add: list_all_iff binary_def)
  have total: "total_north_steps ?A = int (length p)"
    using total_north_steps_distribute [OF r _ w, of ?E b ?seq]
    by (simp add: total_north_steps_empty s)
  have wires: "?A ! nat k = wire_of r b (int (length p) mod r) (path_of p) k"
    if "0 \<le> k" "k < r" for k
    using distribute_wire_of [OF r w that, of b ?seq]
    by (simp only: seq sum_list_path_of [OF p])
  show ?thesis
    using A len binA total wires by blast
qed

lemma G_charges_wires:
  assumes r: "0 < r" and p: "is_partition p"
  shows "G_charges p r b =
         Inr (map (\<lambda>i. expected (int (length p)) r ! i -
                        sum_list (wire_of r b (int (length p) mod r) (path_of p) (int i)))
                [0 ..< nat r])"
proof -
  from G_abacus_wires [OF r p, of b] obtain A where A: "G_abacus p r b = Inr A"
    and len: "length A = nat r" and total: "total_north_steps A = int (length p)"
    and wires: "\<And>k. 0 \<le> k \<Longrightarrow> k < r \<Longrightarrow>
                  A ! nat k = wire_of r b (int (length p) mod r) (path_of p) k"
    by blast
  have "map (\<lambda>i. expected (total_north_steps A) r ! i - sum_list (A ! i)) [0 ..< nat r] =
        map (\<lambda>i. expected (int (length p)) r ! i -
                  sum_list (wire_of r b (int (length p) mod r) (path_of p) (int i))) [0 ..< nat r]"
  proof (rule map_cong [OF refl])
    fix i assume "i \<in> set [0 ..< nat r]"
    then have i: "0 \<le> int i" "int i < r" by simp_all
    from wires [OF i] have "A ! i = wire_of r b (int (length p) mod r) (path_of p) (int i)"
      by simp
    then show "expected (total_north_steps A) r ! i - sum_list (A ! i) =
               expected (int (length p)) r ! i -
               sum_list (wire_of r b (int (length p) mod r) (path_of p) (int i))"
      by (simp only: total)
  qed
  then show ?thesis
    using G_charges_value(1) [OF r A len] by simp
qed

lemma G_quotient_wires:
  assumes r: "0 < r" and p: "is_partition p"
  shows "G_quotient p r b False =
         Inr (map (\<lambda>i. from_zero_one (invert_zero_one
                          (wire_of r b (int (length p) mod r) (path_of p) (int i))))
                [0 ..< nat r])"
proof -
  from G_abacus_wires [OF r p, of b] obtain A where A: "G_abacus p r b = Inr A"
    and len: "length A = nat r"
    and wires: "\<And>k. 0 \<le> k \<Longrightarrow> k < r \<Longrightarrow>
                  A ! nat k = wire_of r b (int (length p) mod r) (path_of p) k"
    by blast
  have "map (\<lambda>i. from_zero_one (invert_zero_one (A ! i))) [0 ..< length A] =
        map (\<lambda>wire. from_zero_one (invert_zero_one wire)) (map ((!) A) [0 ..< length A])"
    by (simp only: map_map comp_def)
  then have "map (\<lambda>wire. from_zero_one (invert_zero_one wire)) A =
        map (\<lambda>i. from_zero_one (invert_zero_one (A ! i))) [0 ..< length A]"
    by (simp only: map_nth)
  also have "\<dots> = map (\<lambda>i. from_zero_one (invert_zero_one
                          (wire_of r b (int (length p) mod r) (path_of p) (int i)))) [0 ..< nat r]"
    unfolding len
  proof (rule map_cong [OF refl])
    fix i assume "i \<in> set [0 ..< nat r]"
    then have i: "0 \<le> int i" "int i < r" by simp_all
    from wires [OF i] have "A ! i = wire_of r b (int (length p) mod r) (path_of p) (int i)"
      by simp
    then show "from_zero_one (invert_zero_one (A ! i)) =
               from_zero_one (invert_zero_one
                 (wire_of r b (int (length p) mod r) (path_of p) (int i)))"
      by simp
  qed
  finally show ?thesis
    by (simp add: G_quotient_def A)
qed


lemma core_quotient_empty:
  assumes r: "0 < r" and p: "is_partition c" and core: "is_G_core c r b = Inr True"
  shows "G_quotient c r b False = Inr (replicate (nat r) [])"
proof -
  define l where "l = int (length c)"
  have lr: "0 \<le> l mod r" "l mod r < r" using r by simp_all
  have bp: "binary (path_of c)" by (rule binary_path_of)
  from core have "\<not> bad_cell c r b"
    using is_G_core_bad_cell [of r c b] r by simp
  then have "\<not> conflict r b (l mod r) (path_of c)"
    using bad_cell_conflict [OF r p, of b 0] by (simp add: l_def)
  then have nice: "\<forall>k. 0 \<le> k \<longrightarrow> k < r \<longrightarrow> nice (wire_of r b (l mod r) (path_of c) k)"
    unfolding nice_conflict [OF r bp lr] .
  have "map (\<lambda>i. from_zero_one (invert_zero_one (wire_of r b (l mod r) (path_of c) (int i))))
          [0 ..< nat r] = map (\<lambda>i. []) [0 ..< nat r]"
  proof (rule map_cong [OF refl])
    fix i assume "i \<in> set [0 ..< nat r]"
    then have i: "0 \<le> int i" "int i < r" by simp_all
    from nice i have "nice (wire_of r b (l mod r) (path_of c) (int i))" by simp
    then show "from_zero_one (invert_zero_one (wire_of r b (l mod r) (path_of c) (int i))) = []"
      by (rule decode_nice [OF binary_wire_of [OF bp]])
  qed
  then show ?thesis
    unfolding G_quotient_wires [OF r p] l_def [symmetric]
    by (simp add: map_replicate_const)
qed

lemma rebuild:
  assumes r: "0 < r" and g: "gcd r b = 1" and p: "is_partition p"
  shows "\<exists>ch q. G_charges p r b = Inr ch \<and> G_quotient p r b False = Inr q \<and>
                int (length ch) = r \<and> sum_list ch = 0 \<and>
                from_G_charges_and_quotient ch (Some q) r b = Some (Inr p)"
proof -
  define l where "l = int (length p)"
  define W where "W k = wire_of r b (l mod r) (path_of p) k" for k
  define mu where "mu k = from_zero_one (invert_zero_one (W k))" for k
  define ch where "ch = map (\<lambda>i. expected l r ! i - sum_list (W (int i))) [0 ..< nat r]"
  define q where "q = map (\<lambda>i. mu (int i)) [0 ..< nat r]"
  define c_max where "c_max = Max (set ch)"
  have lr: "0 \<le> l mod r" "l mod r < r" using r by simp_all
  have bp: "binary (path_of p)" by (rule binary_path_of)
  have bW: "binary (W k)" for k unfolding W_def by (rule binary_wire_of [OF bp])
  have charges: "G_charges p r b = Inr ch"
    unfolding ch_def W_def l_def by (rule G_charges_wires [OF r p])
  have quot: "G_quotient p r b False = Inr q"
    unfolding q_def mu_def W_def l_def by (rule G_quotient_wires [OF r p])
  from G_abacus_wires [OF r p, of b] obtain A where A: "G_abacus p r b = Inr A"
    and lenA: "length A = nat r" by blast
  have sc: "sum_list ch = 0"
    using G_charges_value [OF r A lenA] charges by simp
  have lc: "int (length ch) = r" using r by (simp add: ch_def)
  have lq: "int (length q) = r" using r by (simp add: q_def)
  have dec: "is_partition (mu k) \<and>
             (\<exists>x y. W k = replicate x 1 @ path_of (mu k) @ replicate y 0)" for k
    unfolding mu_def by (rule wire_decode [OF bW])
  have pq: "list_all is_partition q"
    using dec by (simp add: q_def list_all_iff)
  from charged_quotient [OF r lc sc lq pq, of b, folded c_max_def]
  obtain n where n0: "0 \<le> n"
    and bounds: "\<And>i. i < nat r \<Longrightarrow>
        int (length (q ! i)) \<le> n \<and> get_part (q ! i) 0 \<le> n \<and> ch ! i \<le> c_max"
    and total: "total_north_steps
             (map (\<lambda>i. replicate (nat (c_max - ch ! i)) 1 @
                        to_dyck_word (q ! i) (Some n)) [0 ..< nat r]) = r * (n + c_max)"
    and res: "from_G_charges_and_quotient ch (Some q) r b =
             from_G_abacus
               (map (\<lambda>i. replicate (nat (c_max - ch ! i)) 1 @
                          to_dyck_word (q ! i) (Some n)) [0 ..< nat r]) (Some r) b"
    by blast
  define A1 where "A1 = map (\<lambda>i. replicate (nat (c_max - ch ! i)) 1 @
                          to_dyck_word (q ! i) (Some n)) [0 ..< nat r]"
  have lenA1: "length A1 = nat r" by (simp add: A1_def)
  have fact: "int (length (mu k)) \<le> n \<and> get_part (mu k) 0 \<le> n \<and>
              expected l r ! nat k - sum_list (W k) \<le> c_max \<and>
              ch ! nat k = expected l r ! nat k - sum_list (W k) \<and>
              A1 ! nat k = replicate (nat (c_max - ch ! nat k)) 1 @
                           to_dyck_word (mu k) (Some n)"
    if k: "0 \<le> k" "k < r" for k
  proof -
    have kn: "nat k < nat r" using k by simp
    have qk: "q ! nat k = mu k" using kn k by (simp add: q_def)
    have ck: "ch ! nat k = expected l r ! nat k - sum_list (W k)"
      using kn k by (simp add: ch_def)
    have "A1 ! nat k = replicate (nat (c_max - ch ! nat k)) 1 @ to_dyck_word (q ! nat k) (Some n)"
      using kn by (simp add: A1_def)
    then show ?thesis
      using bounds [OF kn] by (simp add: qk ck)
  qed
  have binA1: "list_all binary A1"
  proof -
    have "binary (replicate (nat (c_max - ch ! i)) 1 @ to_dyck_word (q ! i) (Some n))"
      if i: "i < nat r" for i
    proof -
      have mu: "is_partition (q ! i)" using pq i lq by (simp add: list_all_length)
      from bounds [OF i] have "binary (to_dyck_word (q ! i) (Some n))"
        by (intro to_dyck_word_counts(3) [OF mu _ _ n0]) simp_all
      then show ?thesis by (simp add: binary_append binary_ones_list)
    qed
    then show ?thesis by (simp add: A1_def list_all_iff)
  qed
  have tot: "total_north_steps A1 = r * (n + c_max)" unfolding A1_def by (rule total)
  have start: "total_north_steps A1 mod r = 0" unfolding tot by simp
  have le: "l \<le> r * (n + c_max)"
  proof (cases "p = []")
    case True
    have "0 \<le> total_north_steps A1" by (rule binary_total_nonneg [OF binA1])
    then show ?thesis using True by (simp add: l_def tot)
  next
    case False
    define m where "m = l mod r"
    have m: "0 \<le> m" "m < r" using r by (simp_all add: m_def)
    from path_of_hd [OF p False] obtain rest where hd: "path_of p = 0 # rest" by blast
    from dec [of m] obtain x y where pm: "is_partition (mu m)"
      and Wm: "W m = replicate x 1 @ path_of (mu m) @ replicate y 0" by blast
    have "hd (W m) = 0" unfolding W_def m_def [symmetric] hd by simp
    moreover have "W m \<noteq> []" unfolding W_def m_def [symmetric] hd by simp
    ultimately have x: "x = 0" unfolding Wm by (cases x) simp_all
    have sW: "sum_list (W m) = int (length (mu m))"
      unfolding Wm x by (simp add: sum_list_path_of [OF pm] sum_list_replicate)
    from fact [OF m] sW have E: "expected l r ! nat m \<le> n + c_max" by simp
    have Em: "expected l r ! nat m = l div r + (if 0 < m then 1 else 0)"
      unfolding expected_nth_int [OF m] by (simp add: m_def)
    have split: "l = r * (l div r) + m" unfolding m_def by simp
    show ?thesis
    proof (cases "0 < m")
      case True
      with E Em have "l div r + 1 \<le> n + c_max" by simp
      then have "r * (l div r + 1) \<le> r * (n + c_max)"
        using r by (intro mult_left_mono) simp_all
      moreover have "l \<le> r * (l div r + 1)"
        using split m by (simp add: algebra_simps)
      ultimately show ?thesis by simp
    next
      case False
      with m have m0: "m = 0" by simp
      with E Em have "l div r \<le> n + c_max" by simp
      then have "r * (l div r) \<le> r * (n + c_max)"
        using r by (intro mult_left_mono) simp_all
      then show ?thesis using split m0 by simp
    qed
  qed
  define j where "j = nat (r * (n + c_max) - l)"
  have j: "l + int j = r * (n + c_max)" using le by (simp add: j_def)
  define cand where "cand = replicate j 1 @ path_of p"
  have bc: "binary cand"
    unfolding cand_def by (simp add: binary_append binary_ones_list bp)
  have lastc: "cand = [] \<or> last cand = 1"
  proof (cases "path_of p = []")
    case True
    then show ?thesis by (cases j) (simp_all add: cand_def)
  next
    case False
    with path_of_last [of p] show ?thesis by (simp add: cand_def)
  qed
  have wires: "strip_zeros (wire_of r b 0 cand k) = strip_zeros (A1 ! nat k)"
    if k: "0 \<le> k" "k < r" for k
  proof -
    from wire_of_ones [OF r k, of l j b]
    have E: "expected l r ! nat k \<le> n + c_max"
      and w1: "wire_of r b 0 (replicate j 1) k =
               replicate (nat (n + c_max - expected l r ! nat k)) 1"
      and wk: "walk r b 0 (replicate j 1) = l mod r"
      unfolding j by (simp_all add: expected_multiple [OF r k])
    from dec [of k] obtain x y where pm: "is_partition (mu k)"
      and Wk: "W k = replicate x 1 @ path_of (mu k) @ replicate y 0" by blast
    have sW: "sum_list (W k) = int x + int (length (mu k))"
      unfolding Wk by (simp add: sum_list_path_of [OF pm] sum_list_replicate)
    from fact [OF k] have b1: "int (length (mu k)) \<le> n"
      and b3: "expected l r ! nat k - sum_list (W k) \<le> c_max"
      and ck: "ch ! nat k = expected l r ! nat k - sum_list (W k)"
      and Ak: "A1 ! nat k = replicate (nat (c_max - ch ! nat k)) 1 @
                            to_dyck_word (mu k) (Some n)"
      by simp_all
    define a where "a = nat (n + c_max - expected l r ! nat k)"
    define c where "c = nat (c_max - ch ! nat k)"
    define d where "d = nat (n - int (length (mu k)))"
    have count: "a + x = c + d"
      using E b1 b3 unfolding a_def c_def d_def ck sW by simp
    have "wire_of r b 0 cand k = replicate a 1 @ W k"
      unfolding cand_def wire_of_append w1 wk W_def a_def ..
    also have "\<dots> = (replicate (a + x) 1 @ path_of (mu k)) @ replicate y 0"
      unfolding Wk by (simp add: replicate_add)
    finally have L: "strip_zeros (wire_of r b 0 cand k) =
                     strip_zeros (replicate (a + x) 1 @ path_of (mu k))"
      by (simp only: strip_zeros_append_zeros)
    have "A1 ! nat k = (replicate (c + d) 1 @ path_of (mu k)) @
                       replicate (nat (n - get_part (mu k) 0)) 0"
      unfolding Ak to_dyck_word_path c_def [symmetric] d_def [symmetric]
      by (simp add: replicate_add)
    then have R: "strip_zeros (A1 ! nat k) = strip_zeros (replicate (c + d) 1 @ path_of (mu k))"
      by (simp only: strip_zeros_append_zeros)
    show ?thesis unfolding L R count ..
  qed
  have rep: "represents r b (total_north_steps A1 mod r) A1 cand"
    unfolding start represents_def using bc lastc wires by simp
  have "from_G_abacus A1 (Some r) b = Some (Inr (from_zero_one (invert_zero_one cand)))"
    by (rule from_G_abacus_represents [OF r g lenA1 binA1 rep])
  also have "from_zero_one (invert_zero_one cand) = p"
    unfolding cand_def by (rule decode_prefix [OF p])
  finally have "from_G_charges_and_quotient ch (Some q) r b = Some (Inr p)"
    unfolding res A1_def [symmetric] .
  with charges quot lc sc show ?thesis by blast
qed

lemma G_charges_shape:
  assumes r: "0 < r"
  shows "\<exists>ch. G_charges p r b = Inr ch \<and> int (length ch) = r \<and> sum_list ch = 0"
proof -
  from G_abacus_facts [OF r, of p b] obtain A where A: "G_abacus p r b = Inr A"
    and lenA: "length A = nat r" by blast
  show ?thesis
    using G_charges_value [OF r A lenA] r by simp
qed



text \<open>
  Claim C9, as worded, fails when \<open>r\<close> and \<open>b\<close> are not coprime: \<open>[1, 1]\<close> is a
  \<open>(4,2)\<close>-core, and with the tuple of four empty partitions as quotient
  \<open>from_G_core_and_quotient\<close> goes on to \<open>from_G_abacus\<close>, which signals
  \<open>InvalidAction\<close>, whereas with an absent quotient it returns the core.
\<close>
theorem empty_quotient_not_coprime:
  "is_partition [1, 1] \<and> is_G_core [1, 1] 4 2 = Inr True \<and>
   from_G_core_and_quotient [1, 1] None 4 2 = Some (Inr [1, 1]) \<and>
   from_G_core_and_quotient [1, 1] (Some [[], [], [], []]) 4 2 = Some (Inl InvalidAction)"
  by code_simp

text \<open>
  Claim C9, amended. For every \<open>(r,b)\<close>-core partition \<open>c\<close> with \<open>r \<ge> 1\<close>,
  \<open>from_G_core_and_quotient\<close> returns \<open>c\<close> unchanged when the quotient is absent; when
  the quotient is the \<open>r\<close>-tuple of empty partitions it returns \<open>c\<close> unchanged if
  \<open>gcd r b = 1\<close>, and signals \<open>InvalidAction\<close> otherwise.
\<close>
theorem empty_quotient_returns_core:
  assumes c: "is_partition c" and r: "0 < r" and ok: "is_G_core c r b = Inr True"
  shows "from_G_core_and_quotient c None r b = Some (Inr c) \<and>
         from_G_core_and_quotient c (Some (replicate (nat r) [])) r b =
           (if gcd r b = 1 then Some (Inr c) else Some (Inl InvalidAction))"
proof
  show "from_G_core_and_quotient c None r b = Some (Inr c)"
    by (simp add: from_G_core_and_quotient_def ok)
next
  let ?q = "replicate (nat r) ([]::int list)"
  show "from_G_core_and_quotient c (Some ?q) r b =
          (if gcd r b = 1 then Some (Inr c) else Some (Inl InvalidAction))"
  proof (cases "gcd r b = 1")
    case True
    from rebuild [OF r True c] obtain ch q where charges: "G_charges c r b = Inr ch"
      and quot: "G_quotient c r b False = Inr q"
      and res: "from_G_charges_and_quotient ch (Some q) r b = Some (Inr c)"
      by blast
    from quot core_quotient_empty [OF r c ok] have q: "q = ?q" by simp
    show ?thesis
      using True by (simp add: from_G_core_and_quotient_def ok charges res [unfolded q])
  next
    case False
    from G_charges_shape [OF r, of c b] obtain ch where charges: "G_charges c r b = Inr ch"
      and lc: "int (length ch) = r" and sc: "sum_list ch = 0"
      by blast
    have lq: "int (length ?q) = r" using r by simp
    have pq: "list_all is_partition ?q" by (simp add: list_all_iff is_partition_def)
    from charged_quotient [OF r lc sc lq pq, of b] obtain A where
      "from_G_charges_and_quotient ch (Some ?q) r b = from_G_abacus A (Some r) b"
      by blast
    also have "\<dots> = Some (Inl InvalidAction)"
      using False by (simp add: from_G_abacus_def)
    finally show ?thesis
      using False by (simp add: from_G_core_and_quotient_def ok charges)
  qed
qed

theorem empty_quotient_returns_core_witness:
  "is_partition [2, 1] \<and> (0::int) < 2 \<and> is_G_core [2, 1] 2 1 = Inr True \<and>
   from_G_core_and_quotient [2, 1] None 2 1 = Some (Inr [2, 1]) \<and>
   from_G_core_and_quotient [2, 1] (Some [[], []]) 2 1 = Some (Inr [2, 1])"
proof -
  have h1: "is_partition [2, 1]" by (simp add: is_partition_def)
  have h2: "(0::int) < 2" by simp
  have h3: "is_G_core [2, 1] 2 1 = Inr True" by code_simp
  note t = empty_quotient_returns_core [OF h1 h2 h3]
  have a: "from_G_core_and_quotient [2, 1] None 2 1 = Some (Inr [2, 1])"
    by (rule t [THEN conjunct1])
  have b: "from_G_core_and_quotient [2, 1] (Some [[], []]) 2 1 = Some (Inr [2, 1])"
    using t [THEN conjunct2] by (simp add: numeral_2_eq_2)
  show ?thesis by (intro conjI h1 h2 h3 a b)
qed

end
